theory Spec2Isabelle
  imports Complex_Main "HOL-Library.Sublist"
begin

section \<open>The directory watcher of mnamer (\<open>mnamer/watcher.py\<close>)\<close>

text \<open>
  The watcher polls a directory, hands every settled file to a processing callback and
  then reclaims source directories. It works on the file system and on a clock, so the
  model makes both explicit: the file system is a value that every operation takes and
  returns, the clock reading \<open>time.monotonic()\<close> is an argument of \<open>run_once\<close>.
\<close>

subsection \<open>Clock readings\<close>

text \<open>
  \<open>time.monotonic()\<close> returns a Python float, a finite binary64 number that is not
  negative. \<open>Double m e\<close> stands for the number \<open>m * 2 ^ e\<close>; a binary64 number has
  such a form with \<open>\<bar>m\<bar> < 2 ^ 53\<close> and \<open>- 1074 \<le> e\<close>.
\<close>

datatype double = Double (mantissa: int) (exponent: int)

definition dval :: "double \<Rightarrow> real" where
  "dval d =
     (if 0 \<le> exponent d then real_of_int (mantissa d) * 2 ^ nat (exponent d)
      else real_of_int (mantissa d) / 2 ^ nat (- exponent d))"

text \<open>The float of a whole number of seconds.\<close>

definition seconds :: "int \<Rightarrow> double" where
  "seconds n = Double n 0"

text \<open>The number of binary digits of a natural number.\<close>

fun bits :: "nat \<Rightarrow> nat" where
  "bits n = (if n = 0 then 0 else Suc (bits (n div 2)))"

declare bits.simps [simp del]

text \<open>
  The binary64 number nearest to \<open>M * 2 ^ e\<close>, ties to the even mantissa: a number of
  at most 53 binary digits is exact, a longer one loses its low digits.
\<close>

definition round_to_nearest_even :: "int \<Rightarrow> int \<Rightarrow> double" where
  "round_to_nearest_even M e =
     (let n = bits (nat \<bar>M\<bar>) in
      if n \<le> 53 then Double M e
      else
        (let k = n - 53;
             q = \<bar>M\<bar> div 2 ^ k;
             r = \<bar>M\<bar> mod 2 ^ k;
             half = 2 ^ (k - 1);
             q' = (if half < r \<or> (r = half \<and> odd q) then q + 1 else q)
         in Double (sgn M * q') (e + int k)))"

text \<open>
  The subtraction of two floats: the exact difference, rounded. Between two clock
  readings it neither overflows nor gives a \<open>NaN\<close>, and a difference below the normal
  range is exact.
\<close>

definition fsub :: "double \<Rightarrow> double \<Rightarrow> double" where
  "fsub a b =
     (let e = min (exponent a) (exponent b)
      in round_to_nearest_even
           (mantissa a * 2 ^ nat (exponent a - e) - mantissa b * 2 ^ nat (exponent b - e)) e)"

text \<open>The comparison \<open>x < n\<close> of a float with a Python int, which is exact.\<close>

definition double_less_int :: "double \<Rightarrow> int \<Rightarrow> bool" where
  "double_less_int x n =
     (if 0 \<le> exponent x then mantissa x * 2 ^ nat (exponent x) < n
      else mantissa x < n * 2 ^ nat (- exponent x))"

subsection \<open>Paths and the file system\<close>

text \<open>
  A path is the list of its components from the root; \<open>Path.parent\<close> drops the last
  component, and the parent of the root is the root.
\<close>

type_synonym path = "string list"

definition parent :: "path \<Rightarrow> path" where
  "parent p = butlast p"

text \<open>The frozen dataclass \<open>FileState\<close>: two snapshots are equal iff both fields are.\<close>

datatype FileState = FileState (size_st: int) (mtime_ns: int)

text \<open>
  The file system holds regular files and directories, each with the size and the
  modification time that \<open>stat\<close> reports. \<open>denied\<close> lists the paths on which the
  operating system refuses a status read, a listing or a removal with an \<open>OSError\<close>;
  \<open>resolve\<close> is \<open>Path.resolve\<close> (the identity where there are no symbolic links).
\<close>

datatype node = File FileState | Dir FileState

record fsys =
  entries :: "(path \<times> node) list"
  denied :: "path list"
  resolve :: "path \<Rightarrow> path"

definition node_at :: "fsys \<Rightarrow> path \<Rightarrow> node option" where
  "node_at fs p = map_of (entries fs) p"

definition path_exists :: "fsys \<Rightarrow> path \<Rightarrow> bool" where
  "path_exists fs p = (node_at fs p \<noteq> None)"

fun is_file_node :: "node \<Rightarrow> bool" where
  "is_file_node (File s) = True"
| "is_file_node (Dir s) = False"

definition is_dir :: "fsys \<Rightarrow> path \<Rightarrow> bool" where
  "is_dir fs p = (case node_at fs p of Some (Dir s) \<Rightarrow> True | _ \<Rightarrow> False)"

text \<open>\<open>Path.stat\<close>: \<open>None\<close> stands for the \<open>OSError\<close> (missing path, permission denied).\<close>

definition stat :: "fsys \<Rightarrow> path \<Rightarrow> FileState option" where
  "stat fs p =
     (if p \<in> set (denied fs) then None
      else case node_at fs p of
             None \<Rightarrow> None
           | Some (File s) \<Rightarrow> Some s
           | Some (Dir s) \<Rightarrow> Some s)"

text \<open>\<open>Path.iterdir\<close>: the direct children of a directory, or an \<open>OSError\<close>.\<close>

definition iterdir :: "fsys \<Rightarrow> path \<Rightarrow> path list option" where
  "iterdir fs d =
     (if \<not> is_dir fs d \<or> d \<in> set (denied fs) then None
      else Some [p \<leftarrow> map fst (entries fs). p \<noteq> [] \<and> parent p = d])"

text \<open>
  \<open>shutil.rmtree\<close> removes the directory and everything below it. It raises when the
  path is not a directory or when something in the tree cannot be removed; the model
  leaves the tree as it was in that case.
\<close>

definition rmtree :: "fsys \<Rightarrow> path \<Rightarrow> fsys option" where
  "rmtree fs d =
     (if \<not> is_dir fs d \<or> (\<exists>q \<in> set (denied fs). prefix d q) then None
      else Some (fs\<lparr>entries := [e \<leftarrow> entries fs. \<not> prefix d (fst e)]\<rparr>))"

text \<open>\<open>Path.rmdir\<close> removes an empty directory and raises on anything else.\<close>

definition rmdir :: "fsys \<Rightarrow> path \<Rightarrow> fsys option" where
  "rmdir fs d =
     (case iterdir fs d of
        None \<Rightarrow> None
      | Some kids \<Rightarrow>
          if kids \<noteq> [] then None
          else Some (fs\<lparr>entries := [e \<leftarrow> entries fs. fst e \<noteq> d]\<rparr>))"

subsection \<open>Settings and discovery\<close>

text \<open>
  The fields of \<open>SettingStore\<close> that the watcher reads. The source keeps the ignore
  list and the mask as lists of patterns and matches them in \<open>mnamer.utils\<close>; here each
  is the predicate that its filter computes on a path.
\<close>

record SettingStore =
  watch_input_directory :: "path option"
  watch_poll_interval :: int
  watch_settle_seconds :: int
  watch_recursive :: bool
  cleanup_empty_source_dirs :: bool
  cleanup_processed_source_dirs :: bool
  ignore_match :: "path \<Rightarrow> bool"
  mask_match :: "path \<Rightarrow> bool"

text \<open>
  Modelled from the spec: \<open>crawl_in\<close> of \<open>mnamer.utils\<close> (not among the sources)
  enumerates the files under each root, below any depth when \<open>recurse\<close> is set and
  directly inside the root otherwise.
\<close>

definition crawl_in :: "fsys \<Rightarrow> path list \<Rightarrow> bool \<Rightarrow> path list" where
  "crawl_in fs roots recurse =
     concat (map (\<lambda>r. [p \<leftarrow> map fst [e \<leftarrow> entries fs. is_file_node (snd e)].
                         prefix r p \<and> (recurse \<or> length p \<le> Suc (length r))]) roots)"

text \<open>
  Modelled from the spec: \<open>filter_blacklist\<close> of \<open>mnamer.utils\<close> drops the paths that
  match the configured blacklist.
\<close>

definition filter_blacklist :: "SettingStore \<Rightarrow> path list \<Rightarrow> path list" where
  "filter_blacklist s ps = [p \<leftarrow> ps. \<not> ignore_match s p]"

text \<open>
  Modelled from the spec: \<open>filter_containers\<close> of \<open>mnamer.utils\<close> keeps the paths that
  match the configured filename mask.
\<close>

definition filter_containers :: "SettingStore \<Rightarrow> path list \<Rightarrow> path list" where
  "filter_containers s ps = [p \<leftarrow> ps. mask_match s p]"

subsection \<open>The watcher\<close>

text \<open>
  The fields of \<open>Watcher\<close>. The callback takes the path of its target and the file
  system and returns its verdict with the file system it leaves. \<open>_pending\<close> and
  \<open>_attempted\<close> are dictionaries; \<open>_processed_dirs\<close> is a set, kept as a list without
  repetitions whose order is the order in which the sweep visits it.
\<close>

record watcher =
  settings :: SettingStore
  process_target :: "path \<Rightarrow> fsys \<Rightarrow> bool \<times> fsys"
  watch_directory :: path
  poll_interval :: int
  settle_seconds :: int
  self_cleanup_empty_source_dirs :: bool
  self_cleanup_processed_source_dirs :: bool
  pending :: "path \<rightharpoonup> FileState \<times> double"
  attempted :: "path \<rightharpoonup> FileState"
  processed_dirs :: "path list"

datatype error = RuntimeError

text \<open>\<open>Watcher.__init__\<close>.\<close>

definition Watcher_init ::
  "SettingStore \<Rightarrow> (path \<Rightarrow> fsys \<Rightarrow> bool \<times> fsys) \<Rightarrow> error + watcher" where
  "Watcher_init s callback =
     (case watch_input_directory s of
        None \<Rightarrow> Inl RuntimeError
      | Some d \<Rightarrow>
          Inr \<lparr>settings = s,
               process_target = callback,
               watch_directory = d,
               poll_interval = max 1 (watch_poll_interval s),
               settle_seconds = max 0 (watch_settle_seconds s),
               self_cleanup_empty_source_dirs = cleanup_empty_source_dirs s,
               self_cleanup_processed_source_dirs =
                 (cleanup_empty_source_dirs s \<and> cleanup_processed_source_dirs s),
               pending = Map.empty,
               attempted = Map.empty,
               processed_dirs = []\<rparr>)"

text \<open>\<open>Watcher._iter_files\<close> and \<open>Watcher._has_masked_files\<close>.\<close>

definition iter_files :: "watcher \<Rightarrow> fsys \<Rightarrow> path list" where
  "iter_files w fs =
     filter_containers (settings w)
       (filter_blacklist (settings w)
          (crawl_in fs [watch_directory w] (watch_recursive (settings w))))"

definition has_masked_files :: "watcher \<Rightarrow> fsys \<Rightarrow> path \<Rightarrow> bool" where
  "has_masked_files w fs directory =
     (filter_containers (settings w) (crawl_in fs [directory] True) \<noteq> [])"

text \<open>\<open>set.add\<close> and \<open>set.discard\<close> on the list that stands for \<open>_processed_dirs\<close>.\<close>

definition add_dir :: "path \<Rightarrow> path list \<Rightarrow> path list" where
  "add_dir d ds = (if d \<in> set ds then ds else ds @ [d])"

definition discard :: "path \<Rightarrow> path list \<Rightarrow> path list" where
  "discard d ds = removeAll d ds"

subsection \<open>One polling cycle\<close>

text \<open>
  The state of the loop of \<open>run_once\<close>: the watcher, the file system, the counter
  \<open>processed\<close>, the set \<open>seen_paths\<close>, and the trace of the callback's invocations
  (one entry for each execution of \<open>self.process_target(target)\<close>).
\<close>

record cycle =
  self :: watcher
  disk :: fsys
  processed :: nat
  seen_paths :: "path set"
  calls :: "path list"

text \<open>
  The part of the loop body that runs once a file has settled: the callback, the
  bookkeeping of the candidate directories and of the two dictionaries, the counter.
  The handle \<open>Target(file_path, self.settings)\<close> is the path of the file, and the
  callback returns; an exception that it raises would leave \<open>run_once\<close> and is
  outside the model.
\<close>

definition dispatch :: "path \<Rightarrow> FileState \<Rightarrow> cycle \<Rightarrow> cycle" where
  "dispatch file_path state c =
     (let w = self c;
          fs' = snd (process_target w file_path (disk c));
          dirs' = (if \<not> path_exists fs' file_path
                   then add_dir (parent file_path) (processed_dirs w)
                   else processed_dirs w)
      in c\<lparr>self := w\<lparr>processed_dirs := dirs',
                       attempted := (attempted w)(file_path \<mapsto> state),
                       pending := (pending w)(file_path := None)\<rparr>,
            disk := fs',
            processed := processed c + 1,
            calls := calls c @ [file_path]\<rparr>)"

text \<open>The body of the loop of \<open>run_once\<close> for one discovered file.\<close>

definition visit :: "double \<Rightarrow> path \<Rightarrow> cycle \<Rightarrow> cycle" where
  "visit now file_path c0 =
     (let c = c0\<lparr>seen_paths := insert file_path (seen_paths c0)\<rparr>; w = self c in
      case stat (disk c) file_path of
        None \<Rightarrow> c
      | Some state \<Rightarrow>
          if attempted w file_path = Some state then c
          else
            (let previous = pending w file_path;
                 unchanged = (case previous of None \<Rightarrow> False | Some (s, t) \<Rightarrow> s = state);
                 first_seen = (case previous of
                                 None \<Rightarrow> now
                               | Some (s, t) \<Rightarrow> if s = state then t else now);
                 c' = (if unchanged then c
                       else c\<lparr>self := w\<lparr>pending :=
                              (pending w)(file_path \<mapsto> (state, first_seen))\<rparr>\<rparr>)
             in if double_less_int (fsub now first_seen) (settle_seconds w) then c'
                else dispatch file_path state c'))"

text \<open>\<open>Watcher._prune_missing\<close>.\<close>

definition prune_missing :: "path set \<Rightarrow> watcher \<Rightarrow> watcher" where
  "prune_missing seen w =
     w\<lparr>pending := pending w |` seen, attempted := attempted w |` seen\<rparr>"

subsection \<open>The cleanup sweep\<close>

text \<open>The notices that the sweep sends to \<open>tty.msg\<close>, one for each deletion.\<close>

datatype notice = DeletedProcessed path | DeletedEmpty path

record sweep =
  cands :: "path list"
  tree :: fsys
  notices :: "notice list"

text \<open>
  The body of the loop of \<open>_cleanup_processed_directories\<close> for one candidate;
  \<open>watch_root\<close> is the resolved watch directory, computed once before the loop.
\<close>

definition cleanup_dir :: "watcher \<Rightarrow> path \<Rightarrow> path \<Rightarrow> sweep \<Rightarrow> sweep" where
  "cleanup_dir w watch_root directory s =
     (let fs = tree s; dropped = s\<lparr>cands := discard directory (cands s)\<rparr> in
      if \<not> path_exists fs directory then dropped
      else if resolve fs directory = watch_root then s
      else if has_masked_files w fs directory then s
      else if self_cleanup_processed_source_dirs w then
        (case rmtree fs directory of
           None \<Rightarrow> s
         | Some fs' \<Rightarrow>
             dropped\<lparr>tree := fs', notices := notices s @ [DeletedProcessed directory]\<rparr>)
      else if self_cleanup_empty_source_dirs w then
        (case iterdir fs directory of
           None \<Rightarrow> s
         | Some kids \<Rightarrow>
             if kids = [] then
               (case rmdir fs directory of
                  None \<Rightarrow> s
                | Some fs' \<Rightarrow>
                    dropped\<lparr>tree := fs', notices := notices s @ [DeletedEmpty directory]\<rparr>)
             else dropped)
      else dropped)"

text \<open>\<open>Watcher._cleanup_processed_directories\<close>.\<close>

definition cleanup_processed_directories :: "watcher \<Rightarrow> fsys \<Rightarrow> sweep" where
  "cleanup_processed_directories w fs =
     (let s0 = \<lparr>cands = processed_dirs w, tree = fs, notices = []\<rparr> in
      if \<not> self_cleanup_empty_source_dirs w \<and> \<not> self_cleanup_processed_source_dirs w
      then s0
      else fold (cleanup_dir w (resolve fs (watch_directory w))) (processed_dirs w) s0)"

subsection \<open>\<open>run_once\<close>\<close>

text \<open>
  What a cycle leaves: the returned count, the watcher, the file system, the trace of
  the callback's invocations and the notices of the sweep.
\<close>

record outcome =
  returned :: nat
  watcher_after :: watcher
  disk_after :: fsys
  invoked :: "path list"
  announced :: "notice list"

definition run_loop :: "double \<Rightarrow> watcher \<Rightarrow> fsys \<Rightarrow> cycle" where
  "run_loop now w fs =
     fold (visit now) (iter_files w fs)
       \<lparr>self = w, disk = fs, processed = 0, seen_paths = {}, calls = []\<rparr>"

definition run_once :: "double \<Rightarrow> watcher \<Rightarrow> fsys \<Rightarrow> outcome" where
  "run_once now w fs =
     (let c = run_loop now w fs;
          w1 = prune_missing (seen_paths c) (self c);
          s = cleanup_processed_directories w1 (disk c)
      in \<lparr>returned = processed c,
          watcher_after = w1\<lparr>processed_dirs := cands s\<rparr>,
          disk_after = tree s,
          invoked = calls c,
          announced = notices s\<rparr>)"


subsection \<open>Several cycles\<close>

text \<open>
  \<open>Watcher.run\<close> repeats \<open>run_once\<close> for ever, sleeping between two cycles. Its first
  cycles, one for each reading of the monotonic clock, return these counts when nothing
  else touches the file system in between.
\<close>

primrec run_cycles :: "watcher \<Rightarrow> fsys \<Rightarrow> double list \<Rightarrow> nat list" where
  "run_cycles w fs [] = []"
| "run_cycles w fs (t # ts) =
     returned (run_once t w fs)
       # run_cycles (watcher_after (run_once t w fs)) (disk_after (run_once t w fs)) ts"

subsection \<open>Notions used by the properties\<close>

text \<open>
  At path \<open>p\<close> the two dictionaries never hold the same snapshot: an attempted snapshot
  and a pending one for the same path differ.
\<close>

definition exclusive_at :: "watcher \<Rightarrow> path \<Rightarrow> bool" where
  "exclusive_at w p =
     (case attempted w p of
        None \<Rightarrow> True
      | Some s \<Rightarrow> (case pending w p of None \<Rightarrow> True | Some (s', t) \<Rightarrow> s' \<noteq> s))"

text \<open>The same watcher with a callback that answers \<open>v\<close> and acts on the files as before.\<close>

definition with_verdict :: "(path \<Rightarrow> fsys \<Rightarrow> bool) \<Rightarrow> watcher \<Rightarrow> watcher" where
  "with_verdict v w =
     w\<lparr>process_target := (\<lambda>q f. (v q f, snd (process_target w q f)))\<rparr>"

text \<open>The directory that a notice reports as deleted.\<close>

fun dir_of :: "notice \<Rightarrow> path" where
  "dir_of (DeletedProcessed d) = d"
| "dir_of (DeletedEmpty d) = d"

text \<open>The files of the tree that match the mask.\<close>

definition masked_files :: "watcher \<Rightarrow> fsys \<Rightarrow> (path \<times> node) list" where
  "masked_files w fs =
     [e \<leftarrow> entries fs. is_file_node (snd e) \<and> mask_match (settings w) (fst e)]"

text \<open>
  The deletion that the sweep attempts on a candidate raises: \<open>rmtree\<close> in the recursive
  mode, the listing or \<open>rmdir\<close> of an empty directory otherwise.
\<close>

definition removal_fails :: "watcher \<Rightarrow> fsys \<Rightarrow> path \<Rightarrow> bool" where
  "removal_fails w fs d =
     (if self_cleanup_processed_source_dirs w then rmtree fs d = None
      else self_cleanup_empty_source_dirs w
           \<and> (case iterdir fs d of
                 None \<Rightarrow> True
               | Some kids \<Rightarrow> kids = [] \<and> rmdir fs d = None))"

text \<open>
  The flags of the watcher are the ones that \<open>Watcher_init\<close> computes from the
  settings \<open>s\<close>.
\<close>

definition configured :: "SettingStore \<Rightarrow> watcher \<Rightarrow> bool" where
  "configured s w =
     (self_cleanup_empty_source_dirs w = cleanup_empty_source_dirs s
      \<and> self_cleanup_processed_source_dirs w =
          (cleanup_empty_source_dirs s \<and> cleanup_processed_source_dirs s))"

subsection \<open>Example worlds\<close>

text \<open>A mask that keeps the names ending in \<open>.mkv\<close>.\<close>

definition mkv :: "path \<Rightarrow> bool" where
  "mkv p = (p \<noteq> [] \<and> take 4 (rev (last p)) = rev ''.mkv'')"

definition demo_settings :: "int \<Rightarrow> bool \<Rightarrow> bool \<Rightarrow> SettingStore" where
  "demo_settings S e r =
     \<lparr>watch_input_directory = Some [''drop''],
      watch_poll_interval = 1,
      watch_settle_seconds = S,
      watch_recursive = True,
      cleanup_empty_source_dirs = e,
      cleanup_processed_source_dirs = r,
      ignore_match = (\<lambda>p. False),
      mask_match = mkv\<rparr>"

text \<open>A callback that fails and leaves the file, and one that moves the file away.\<close>

definition keep_file :: "path \<Rightarrow> fsys \<Rightarrow> bool \<times> fsys" where
  "keep_file p fs = (False, fs)"

definition move_file :: "path \<Rightarrow> fsys \<Rightarrow> bool \<times> fsys" where
  "move_file p fs = (True, fs\<lparr>entries := [e \<leftarrow> entries fs. fst e \<noteq> p]\<rparr>)"

text \<open>The watcher that \<open>Watcher_init\<close> builds from \<open>demo_settings\<close>.\<close>

definition demo_watcher ::
  "int \<Rightarrow> bool \<Rightarrow> bool \<Rightarrow> (path \<Rightarrow> fsys \<Rightarrow> bool \<times> fsys) \<Rightarrow> watcher" where
  "demo_watcher S e r cb =
     \<lparr>settings = demo_settings S e r,
      process_target = cb,
      watch_directory = [''drop''],
      poll_interval = 1,
      settle_seconds = S,
      self_cleanup_empty_source_dirs = e,
      self_cleanup_processed_source_dirs = (e \<and> r),
      pending = Map.empty,
      attempted = Map.empty,
      processed_dirs = []\<rparr>"

text \<open>
  The floats that Python reads for \<open>0.1\<close> and \<open>10.1\<close>
  (\<open>0x1.999999999999ap-4\<close> and \<open>0x1.4333333333333p+3\<close>).
\<close>

definition tenth :: double where
  "tenth = Double 3602879701896397 (- 55)"

definition ten_and_tenth :: double where
  "ten_and_tenth = Double 5685794529555251 (- 49)"

text \<open>A watch directory that holds one media file.\<close>

definition disk_one :: fsys where
  "disk_one =
     \<lparr>entries = [([''drop''], Dir (FileState 0 1)),
                 ([''drop'', ''show.mkv''], File (FileState 4 7))],
      denied = [],
      resolve = (\<lambda>p. p)\<rparr>"

text \<open>
  A watcher that attempted \<open>drop/show.mkv\<close> at one snapshot and holds it pending at
  another one.
\<close>

definition stale_watcher :: watcher where
  "stale_watcher =
     (demo_watcher 0 True True keep_file)
       \<lparr>pending := [[''drop'', ''show.mkv''] \<mapsto> (FileState 4 7, seconds 0)],
        attempted := [[''drop'', ''show.mkv''] \<mapsto> FileState 1 1]\<rparr>"

text \<open>
  A release directory with two media files and a subdirectory that holds a third one
  and a picture.
\<close>

definition disk_release :: fsys where
  "disk_release =
     \<lparr>entries = [([''drop''], Dir (FileState 0 1)),
                 ([''drop'', ''release''], Dir (FileState 0 2)),
                 ([''drop'', ''release'', ''a.mkv''], File (FileState 4 3)),
                 ([''drop'', ''release'', ''b.mkv''], File (FileState 5 4)),
                 ([''drop'', ''release'', ''Screens''], Dir (FileState 0 5)),
                 ([''drop'', ''release'', ''Screens'', ''c.mkv''], File (FileState 6 6)),
                 ([''drop'', ''release'', ''Screens'', ''screen1.jpg''], File (FileState 7 7))],
      denied = [],
      resolve = (\<lambda>p. p)\<rparr>"

text \<open>A callback that moves every file away but \<open>b.mkv\<close>, on which it fails.\<close>

definition move_unless_b :: "path \<Rightarrow> fsys \<Rightarrow> bool \<times> fsys" where
  "move_unless_b p fs = (if last p = ''b.mkv'' then (False, fs) else move_file p fs)"

text \<open>
  What such a cycle leaves for the sweep: \<open>b.mkv\<close> and the picture are still there,
  and both directories are candidates.
\<close>

definition disk_left :: fsys where
  "disk_left =
     \<lparr>entries = [([''drop''], Dir (FileState 0 1)),
                 ([''drop'', ''release''], Dir (FileState 0 2)),
                 ([''drop'', ''release'', ''b.mkv''], File (FileState 5 4)),
                 ([''drop'', ''release'', ''Screens''], Dir (FileState 0 5)),
                 ([''drop'', ''release'', ''Screens'', ''screen1.jpg''], File (FileState 7 7))],
      denied = [],
      resolve = (\<lambda>p. p)\<rparr>"

definition left_watcher :: "bool \<Rightarrow> bool \<Rightarrow> watcher" where
  "left_watcher e r =
     (demo_watcher 0 e r keep_file)
       \<lparr>processed_dirs := [[''drop'', ''release''], [''drop'', ''release'', ''Screens'']]\<rparr>"

text \<open>An empty watch directory that is itself a candidate.\<close>

definition disk_bare :: fsys where
  "disk_bare = \<lparr>entries = [([''drop''], Dir (FileState 0 1))], denied = [], resolve = (\<lambda>p. p)\<rparr>"

definition root_watcher :: watcher where
  "root_watcher = (demo_watcher 0 True True keep_file)\<lparr>processed_dirs := [[''drop'']]\<rparr>"

section \<open>Properties of the polling cycle\<close>

subsection \<open>What one visit changes\<close>

lemma visit_fields:
  "settings (self (visit now p c)) = settings (self c)
   \<and> process_target (self (visit now p c)) = process_target (self c)
   \<and> watch_directory (self (visit now p c)) = watch_directory (self c)
   \<and> settle_seconds (self (visit now p c)) = settle_seconds (self c)"
  by (simp add: visit_def dispatch_def Let_def split: option.splits prod.splits)

lemma visit_flags:
  "self_cleanup_empty_source_dirs (self (visit now p c)) = self_cleanup_empty_source_dirs (self c)
   \<and> self_cleanup_processed_source_dirs (self (visit now p c)) =
       self_cleanup_processed_source_dirs (self c)
   \<and> poll_interval (self (visit now p c)) = poll_interval (self c)"
  by (simp add: visit_def dispatch_def Let_def split: option.splits prod.splits)

lemma visit_seen: "seen_paths (visit now p c) = insert p (seen_paths c)"
  by (simp add: visit_def dispatch_def Let_def split: option.splits prod.splits)

lemma visit_other:
  "q \<noteq> p \<Longrightarrow> pending (self (visit now p c)) q = pending (self c) q
     \<and> attempted (self (visit now p c)) q = attempted (self c) q"
  by (simp add: visit_def dispatch_def Let_def split: option.splits prod.splits)

text \<open>A visit either leaves the callback alone or dispatches the file it visits.\<close>

lemma visit_effect:
  "(calls (visit now q c) = calls c \<and> disk (visit now q c) = disk c
      \<and> processed (visit now q c) = processed c
      \<and> processed_dirs (self (visit now q c)) = processed_dirs (self c)
      \<and> attempted (self (visit now q c)) = attempted (self c))
   \<or> (calls (visit now q c) = calls c @ [q]
      \<and> disk (visit now q c) = snd (process_target (self c) q (disk c))
      \<and> processed (visit now q c) = processed c + 1
      \<and> attempted (self (visit now q c)) q = stat (disk c) q
      \<and> stat (disk c) q \<noteq> None
      \<and> pending (self (visit now q c)) q = None
      \<and> processed_dirs (self (visit now q c)) =
           (if path_exists (disk (visit now q c)) q then processed_dirs (self c)
            else add_dir (parent q) (processed_dirs (self c))))"
  by (simp add: visit_def dispatch_def Let_def split: option.splits prod.splits)


lemma visit_already_attempted:
  "stat (disk c) p = Some st \<Longrightarrow> attempted (self c) p = Some st \<Longrightarrow>
     visit now p c = c\<lparr>seen_paths := insert p (seen_paths c)\<rparr>"
  by (simp add: visit_def Let_def)

subsection \<open>What the loop changes\<close>

lemma fold_visit_seen: "seen_paths (fold (visit now) ps c) = set ps \<union> seen_paths c"
  by (induction ps arbitrary: c) (auto simp: visit_seen)

lemma fold_visit_other:
  "q \<notin> set ps \<Longrightarrow> pending (self (fold (visit now) ps c)) q = pending (self c) q
     \<and> attempted (self (fold (visit now) ps c)) q = attempted (self c) q"
  by (induction ps arbitrary: c) (auto simp: visit_other)

lemma fold_visit_fields:
  "settings (self (fold (visit now) ps c)) = settings (self c)
   \<and> process_target (self (fold (visit now) ps c)) = process_target (self c)
   \<and> watch_directory (self (fold (visit now) ps c)) = watch_directory (self c)
   \<and> settle_seconds (self (fold (visit now) ps c)) = settle_seconds (self c)"
  by (induction ps arbitrary: c) (simp_all add: visit_fields)

lemma fold_visit_flags:
  "self_cleanup_empty_source_dirs (self (fold (visit now) ps c)) =
     self_cleanup_empty_source_dirs (self c)
   \<and> self_cleanup_processed_source_dirs (self (fold (visit now) ps c)) =
       self_cleanup_processed_source_dirs (self c)
   \<and> poll_interval (self (fold (visit now) ps c)) = poll_interval (self c)"
  by (induction ps arbitrary: c) (simp_all add: visit_flags)

lemma fold_visit_count:
  "processed c = length (calls c) \<Longrightarrow>
     processed (fold (visit now) ps c) = length (calls (fold (visit now) ps c))"
proof (induction ps arbitrary: c)
  case Nil
  then show ?case by simp
next
  case (Cons q ps)
  have "processed (visit now q c) = length (calls (visit now q c))"
    using visit_effect [of now q c] Cons.prems by auto
  then show ?case using Cons.IH by simp
qed

lemma fold_visit_calls_subset:
  "set (calls (fold (visit now) ps c)) \<subseteq> set ps \<union> set (calls c)"
proof (induction ps arbitrary: c)
  case Nil
  then show ?case by simp
next
  case (Cons q ps)
  have "set (calls (visit now q c)) \<subseteq> insert q (set (calls c))"
    using visit_effect [of now q c] by auto
  then show ?case using Cons.IH [of "visit now q c"] by auto
qed

lemma run_loop_seen: "seen_paths (run_loop now w fs) = set (iter_files w fs)"
  by (simp add: run_loop_def fold_visit_seen)

lemma run_once_pending:
  "pending (watcher_after (run_once now w fs)) =
     pending (self (run_loop now w fs)) |` set (iter_files w fs)"
  by (simp add: run_once_def Let_def prune_missing_def run_loop_seen)

lemma run_once_attempted:
  "attempted (watcher_after (run_once now w fs)) =
     attempted (self (run_loop now w fs)) |` set (iter_files w fs)"
  by (simp add: run_once_def Let_def prune_missing_def run_loop_seen)

lemma run_once_count: "returned (run_once now w fs) = length (invoked (run_once now w fs))"
  by (simp add: run_once_def Let_def run_loop_def fold_visit_count)

lemma run_once_keeps_callback:
  "process_target (watcher_after (run_once now w fs)) = process_target w"
  by (simp add: run_once_def Let_def prune_missing_def run_loop_def fold_visit_fields)

text \<open>The definitions that a concrete cycle unfolds.\<close>

lemmas demo_defs = mkv_def demo_settings_def keep_file_def move_file_def demo_watcher_def

lemmas model_defs = run_once_def run_loop_def visit_def dispatch_def prune_missing_def
  cleanup_processed_directories_def cleanup_dir_def iter_files_def has_masked_files_def
  crawl_in_def filter_blacklist_def filter_containers_def stat_def node_at_def path_exists_def
  is_dir_def iterdir_def rmtree_def rmdir_def parent_def add_dir_def discard_def Let_def
  fsub_def round_to_nearest_even_def double_less_int_def seconds_def bits.simps

subsection \<open>Tracking state is bounded by discovery\<close>

text \<open>
  Claim C6. After \<open>run_once\<close>, a path that discovery did not produce in that call is in
  neither the pending map nor the attempted map.
\<close>

theorem prune_bounds_tracking:
  "p \<notin> set (iter_files w fs) \<Longrightarrow>
     pending (watcher_after (run_once now w fs)) p = None
     \<and> attempted (watcher_after (run_once now w fs)) p = None"
  by (simp add: run_once_pending run_once_attempted)

text \<open>
  A watcher that tracks \<open>drop/gone.mkv\<close> in both maps, on a disk that no longer has the
  file: the cycle forgets the path.
\<close>

theorem prune_bounds_tracking_witness:
  "[''drop'', ''gone.mkv''] \<notin> set (iter_files ((demo_watcher 0 True True keep_file)
       \<lparr>pending := [[''drop'', ''gone.mkv''] \<mapsto> (FileState 1 1, seconds 0)],
        attempted := [[''drop'', ''gone.mkv''] \<mapsto> FileState 2 2]\<rparr>) disk_one)
   \<and> pending (watcher_after (run_once (seconds 3) ((demo_watcher 0 True True keep_file)
       \<lparr>pending := [[''drop'', ''gone.mkv''] \<mapsto> (FileState 1 1, seconds 0)],
        attempted := [[''drop'', ''gone.mkv''] \<mapsto> FileState 2 2]\<rparr>) disk_one))
         [''drop'', ''gone.mkv''] = None
   \<and> attempted (watcher_after (run_once (seconds 3) ((demo_watcher 0 True True keep_file)
       \<lparr>pending := [[''drop'', ''gone.mkv''] \<mapsto> (FileState 1 1, seconds 0)],
        attempted := [[''drop'', ''gone.mkv''] \<mapsto> FileState 2 2]\<rparr>) disk_one))
         [''drop'', ''gone.mkv''] = None"
proof -
  let ?w = "(demo_watcher 0 True True keep_file)
       \<lparr>pending := [[''drop'', ''gone.mkv''] \<mapsto> (FileState 1 1, seconds 0)],
        attempted := [[''drop'', ''gone.mkv''] \<mapsto> FileState 2 2]\<rparr>"
  have h: "[''drop'', ''gone.mkv''] \<notin> set (iter_files ?w disk_one)"
    by (simp add: demo_defs disk_one_def model_defs)
  show ?thesis using h prune_bounds_tracking [OF h, of "seconds 3"] by simp
qed

subsection \<open>A snapshot is pending or attempted, never both\<close>

lemma visit_exclusive:
  assumes "exclusive_at (self c) p"
  shows "exclusive_at (self (visit now q c)) p"
proof (cases "q = p")
  case False
  then show ?thesis
    using assms visit_other [of p q now c]
    by (auto simp: exclusive_at_def split: option.splits)
next
  case True
  then show ?thesis
    using assms
    by (auto simp: exclusive_at_def visit_def dispatch_def Let_def
             split: option.splits prod.splits if_splits)
qed

lemma fold_visit_exclusive:
  "exclusive_at (self c) p \<Longrightarrow> exclusive_at (self (fold (visit now) ps c)) p"
  by (induction ps arbitrary: c) (auto simp: visit_exclusive)

lemma prune_exclusive:
  "exclusive_at w p \<Longrightarrow> exclusive_at (prune_missing seen w) p"
  by (auto simp: exclusive_at_def prune_missing_def restrict_map_def split: option.splits)

lemma init_exclusive: "Watcher_init s cb = Inr w \<Longrightarrow> exclusive_at w p"
  by (auto simp: Watcher_init_def exclusive_at_def split: option.splits)

lemma run_once_exclusive:
  assumes "exclusive_at w p"
  shows "exclusive_at (watcher_after (run_once now w fs)) p"
proof -
  have "exclusive_at (self (run_loop now w fs)) p"
    unfolding run_loop_def using assms by (intro fold_visit_exclusive) simp
  then have "exclusive_at
      (prune_missing (seen_paths (run_loop now w fs)) (self (run_loop now w fs))) p"
    by (rule prune_exclusive)
  then show ?thesis
    by (auto simp: run_once_def Let_def exclusive_at_def split: option.splits)
qed

text \<open>
  Claim C9. No path is in the pending map and in the attempted map with the same
  snapshot: a new watcher satisfies this at every path, and the visit of a file, the
  pruning and a whole \<open>run_once\<close> keep it.
\<close>

theorem snapshot_exclusive_invariant:
  "(Watcher_init s cb = Inr w0 \<longrightarrow> exclusive_at w0 p)
   \<and> (exclusive_at (self c) p \<longrightarrow> exclusive_at (self (visit now q c)) p)
   \<and> (exclusive_at w p \<longrightarrow> exclusive_at (prune_missing seen w) p)
   \<and> (exclusive_at w p \<longrightarrow> exclusive_at (watcher_after (run_once now w fs)) p)"
  using init_exclusive visit_exclusive prune_exclusive run_once_exclusive by blast

text \<open>
  A watcher that attempted \<open>drop/show.mkv\<close> at one snapshot and holds it pending at the
  snapshot now on disk: the cycle dispatches the file and the two maps stay apart.
\<close>

theorem snapshot_exclusive_invariant_witness:
  "Watcher_init (demo_settings 0 True True) keep_file = Inr (demo_watcher 0 True True keep_file)
   \<and> exclusive_at (demo_watcher 0 True True keep_file) [''drop'', ''show.mkv'']
   \<and> exclusive_at stale_watcher [''drop'', ''show.mkv'']
   \<and> exclusive_at (self (visit (seconds 3) [''drop'', ''show.mkv'']
         \<lparr>self = stale_watcher, disk = disk_one, processed = 0, seen_paths = {}, calls = []\<rparr>))
         [''drop'', ''show.mkv'']
   \<and> exclusive_at (prune_missing {} stale_watcher) [''drop'', ''show.mkv'']
   \<and> exclusive_at (watcher_after (run_once (seconds 3) stale_watcher disk_one)) [''drop'', ''show.mkv'']
   \<and> attempted (watcher_after (run_once (seconds 3) stale_watcher disk_one)) [''drop'', ''show.mkv'']
       = Some (FileState 4 7)"
proof -
  have i: "Watcher_init (demo_settings 0 True True) keep_file
             = Inr (demo_watcher 0 True True keep_file)"
    by (simp add: Watcher_init_def demo_defs)
  have e: "exclusive_at stale_watcher [''drop'', ''show.mkv'']"
    by (simp add: exclusive_at_def stale_watcher_def demo_defs)
  have a: "attempted (watcher_after (run_once (seconds 3) stale_watcher disk_one)) [''drop'', ''show.mkv'']
       = Some (FileState 4 7)"
    by (simp add: stale_watcher_def demo_defs disk_one_def model_defs)
  show ?thesis
    using i e a
      snapshot_exclusive_invariant [of "demo_settings 0 True True" keep_file
        "demo_watcher 0 True True keep_file" "[''drop'', ''show.mkv'']"
        "\<lparr>self = stale_watcher, disk = disk_one, processed = 0, seen_paths = {}, calls = []\<rparr>"
        "seconds 3" "[''drop'', ''show.mkv'']" stale_watcher "{}" disk_one]
    by simp
qed

subsection \<open>At most one dispatch for a snapshot\<close>

text \<open>
  While the file keeps the snapshot that the attempted map records, the loop does not
  call the callback for it.
\<close>

lemma fold_visit_skips:
  assumes "attempted (self c) p = Some st" and "stat (disk c) p = Some st"
    and "\<forall>q f. q \<noteq> p \<longrightarrow> stat f p = Some st \<longrightarrow>
           stat (snd (process_target (self c) q f)) p = Some st"
  shows "set (calls (fold (visit now) ps c)) - set (calls c) \<subseteq> set ps - {p}"
  using assms
proof (induction ps arbitrary: c)
  case Nil
  then show ?case by simp
next
  case (Cons q ps)
  let ?c = "visit now q c"
  have step: "attempted (self ?c) p = Some st \<and> stat (disk ?c) p = Some st
              \<and> set (calls ?c) - set (calls c) \<subseteq> {q} - {p}"
  proof (cases "q = p")
    case True
    then show ?thesis using Cons.prems by (simp add: visit_already_attempted)
  next
    case False
    then have "attempted (self ?c) p = Some st"
      using visit_other [of p q now c] Cons.prems by simp
    moreover have "stat (disk ?c) p = Some st \<and> set (calls ?c) - set (calls c) \<subseteq> {q} - {p}"
      using visit_effect [of now q c] Cons.prems False by auto
    ultimately show ?thesis by simp
  qed
  have pt: "process_target (self ?c) = process_target (self c)"
    by (simp add: visit_fields)
  have "set (calls (fold (visit now) ps ?c)) - set (calls ?c) \<subseteq> set ps - {p}"
    using Cons.IH [of ?c] step Cons.prems(3) pt by simp
  then show ?case using step by auto
qed

lemma fold_visit_recorded:
  assumes "\<forall>p \<in> set (calls c). attempted (self c) p \<noteq> None"
  shows "\<forall>p \<in> set (calls (fold (visit now) ps c)).
           attempted (self (fold (visit now) ps c)) p \<noteq> None"
  using assms
proof (induction ps arbitrary: c)
  case Nil
  then show ?case by simp
next
  case (Cons q ps)
  have "\<forall>p \<in> set (calls (visit now q c)). attempted (self (visit now q c)) p \<noteq> None"
  proof
    fix p assume p: "p \<in> set (calls (visit now q c))"
    show "attempted (self (visit now q c)) p \<noteq> None"
    proof (cases "p = q")
      case True
      then show ?thesis
        using visit_effect [of now q c] p Cons.prems by auto
    next
      case False
      then have "p \<in> set (calls c)" using visit_effect [of now q c] p by auto
      then show ?thesis using Cons.prems visit_other [of p q now c] False by simp
    qed
  qed
  then show ?case using Cons.IH by simp
qed

lemma dispatched_is_recorded:
  assumes "p \<in> set (invoked (run_once now w fs))"
  shows "attempted (watcher_after (run_once now w fs)) p \<noteq> None"
proof -
  let ?c = "run_loop now w fs"
  have p: "p \<in> set (calls ?c)" using assms by (simp add: run_once_def Let_def)
  have "\<forall>p \<in> set (calls ?c). attempted (self ?c) p \<noteq> None"
    unfolding run_loop_def by (rule fold_visit_recorded) simp
  then have a: "attempted (self ?c) p \<noteq> None" using p by blast
  have "p \<in> set (iter_files w fs)"
    using p fold_visit_calls_subset
      [of now "iter_files w fs"
          "\<lparr>self = w, disk = fs, processed = 0, seen_paths = {}, calls = []\<rparr>"]
    by (auto simp: run_loop_def)
  then show ?thesis using a by (simp add: run_once_attempted)
qed

text \<open>
  Claim C3. Let a cycle dispatch \<open>p\<close>, and let the next \<open>run_once\<close> find \<open>p\<close> with the
  snapshot recorded at that dispatch (the callbacks that it runs for other files leave
  that snapshot alone). Then the next \<open>run_once\<close> does not call the callback for \<open>p\<close>,
  and the count it returns is the number of its callback invocations, none of them for
  \<open>p\<close>.
\<close>

theorem at_most_once_dispatch:
  assumes "p \<in> set (invoked (run_once t0 w0 fs0))"
    and "w1 = watcher_after (run_once t0 w0 fs0)"
    and "stat fs1 p = attempted w1 p"
    and "\<forall>q f. q \<noteq> p \<longrightarrow> stat f p = attempted w1 p \<longrightarrow>
           stat (snd (process_target w1 q f)) p = attempted w1 p"
  shows "p \<notin> set (invoked (run_once t1 w1 fs1))
         \<and> returned (run_once t1 w1 fs1) = length (invoked (run_once t1 w1 fs1))"
proof -
  obtain st where st: "attempted w1 p = Some st"
    using dispatched_is_recorded [OF assms(1)] assms(2) by auto
  let ?c0 = "\<lparr>self = w1, disk = fs1, processed = 0, seen_paths = {}, calls = []\<rparr>"
  have "set (calls (fold (visit t1) (iter_files w1 fs1) ?c0)) - set (calls ?c0)
          \<subseteq> set (iter_files w1 fs1) - {p}"
    by (rule fold_visit_skips [where st = st]) (use st assms(3,4) in simp_all)
  then have "p \<notin> set (invoked (run_once t1 w1 fs1))"
    by (auto simp: run_once_def Let_def run_loop_def)
  then show ?thesis by (simp add: run_once_count)
qed

text \<open>
  The first scenario of the tests: with no settle time the first cycle dispatches
  \<open>drop/show.mkv\<close>, the callback leaves the file, and the second cycle returns 0.
\<close>

theorem at_most_once_dispatch_witness:
  "[''drop'', ''show.mkv''] \<in> set (invoked (run_once (seconds 0) (demo_watcher 0 True True keep_file) disk_one))
   \<and> stat disk_one [''drop'', ''show.mkv'']
       = attempted (watcher_after (run_once (seconds 0) (demo_watcher 0 True True keep_file) disk_one))
           [''drop'', ''show.mkv'']
   \<and> [''drop'', ''show.mkv''] \<notin> set (invoked (run_once (seconds 1)
         (watcher_after (run_once (seconds 0) (demo_watcher 0 True True keep_file) disk_one)) disk_one))
   \<and> returned (run_once (seconds 1)
         (watcher_after (run_once (seconds 0) (demo_watcher 0 True True keep_file) disk_one)) disk_one) = 0"
proof -
  let ?p = "[''drop'', ''show.mkv'']"
  let ?w0 = "demo_watcher 0 True True keep_file"
  let ?w1 = "watcher_after (run_once (seconds 0) ?w0 disk_one)"
  have h1: "?p \<in> set (invoked (run_once (seconds 0) ?w0 disk_one))"
    by (simp add: demo_defs disk_one_def model_defs)
  have h3: "stat disk_one ?p = attempted ?w1 ?p"
    by (simp add: demo_defs disk_one_def model_defs)
  have cb: "process_target ?w1 = keep_file"
    by (simp add: run_once_keeps_callback demo_watcher_def)
  have h4: "\<forall>q f. q \<noteq> ?p \<longrightarrow> stat f ?p = attempted ?w1 ?p \<longrightarrow>
              stat (snd (process_target ?w1 q f)) ?p = attempted ?w1 ?p"
    by (simp add: cb keep_file_def)
  have r: "returned (run_once (seconds 1) ?w1 disk_one) = 0"
    by (simp add: demo_defs disk_one_def model_defs)
  show ?thesis
    using h1 h3 r at_most_once_dispatch [OF h1 refl h3 h4, of "seconds 1"] by simp
qed

subsection \<open>Bookkeeping of a dispatch\<close>

text \<open>The verdict of the callback does not reach the state of the loop.\<close>

lemma visit_with_verdict:
  "visit now p (c\<lparr>self := with_verdict v (self c)\<rparr>)
     = (visit now p c)\<lparr>self := with_verdict v (self (visit now p c))\<rparr>"
  by (simp add: visit_def dispatch_def with_verdict_def Let_def
           split: option.splits prod.splits)

lemma fold_visit_with_verdict:
  "fold (visit now) ps (c\<lparr>self := with_verdict v (self c)\<rparr>)
     = (fold (visit now) ps c)\<lparr>self := with_verdict v (self (fold (visit now) ps c))\<rparr>"
proof (induction ps arbitrary: c)
  case Nil
  then show ?case by simp
next
  case (Cons q ps)
  show ?case using Cons.IH [of "visit now q c"] by (simp add: visit_with_verdict)
qed

lemma iter_files_with_verdict: "iter_files (with_verdict v w) fs = iter_files w fs"
  by (simp add: iter_files_def with_verdict_def)

lemma cleanup_dir_with_verdict:
  "cleanup_dir (with_verdict v w) r d s = cleanup_dir w r d s"
  by (simp add: cleanup_dir_def has_masked_files_def with_verdict_def Let_def)

lemma with_verdict_fields:
  "processed_dirs (with_verdict v w) = processed_dirs w
   \<and> watch_directory (with_verdict v w) = watch_directory w
   \<and> self_cleanup_empty_source_dirs (with_verdict v w) = self_cleanup_empty_source_dirs w
   \<and> self_cleanup_processed_source_dirs (with_verdict v w) =
       self_cleanup_processed_source_dirs w"
  by (simp add: with_verdict_def)

lemma cleanup_with_verdict:
  "cleanup_processed_directories (with_verdict v w) fs = cleanup_processed_directories w fs"
proof -
  have "cleanup_dir (with_verdict v w) = cleanup_dir w"
    by (intro ext) (rule cleanup_dir_with_verdict)
  then show ?thesis
    by (simp add: cleanup_processed_directories_def with_verdict_fields Let_def)
qed

lemma prune_with_verdict:
  "prune_missing seen (with_verdict v w) = with_verdict v (prune_missing seen w)"
  by (simp add: prune_missing_def with_verdict_def)

lemma run_loop_with_verdict:
  "run_loop now (with_verdict v w) fs
     = (run_loop now w fs)\<lparr>self := with_verdict v (self (run_loop now w fs))\<rparr>"
  using fold_visit_with_verdict
    [where now = now and ps = "iter_files w fs" and v = v
       and c = "\<lparr>self = w, disk = fs, processed = 0, seen_paths = {}, calls = []\<rparr>"]
  by (simp add: run_loop_def iter_files_with_verdict)

lemma run_once_with_verdict:
  "run_once now (with_verdict v w) fs =
     (run_once now w fs)\<lparr>watcher_after := with_verdict v (watcher_after (run_once now w fs))\<rparr>"
  by (simp add: run_once_def Let_def run_loop_with_verdict prune_with_verdict
        cleanup_with_verdict)
     (simp add: with_verdict_def)

text \<open>
  Claim C8. When the visit of a file dispatches it (the callback is invoked), the
  snapshot read before the call is recorded in the attempted map, the path leaves the
  pending map, the count grows by one, and the parent directory joins the cleanup
  candidates exactly when the file no longer exists after the callback. None of this
  depends on the verdict: a callback that answers anything else and acts on the files
  in the same way gives the same cycle.
\<close>

theorem dispatch_bookkeeping_ignores_verdict:
  "(calls (visit now p c) \<noteq> calls c \<longrightarrow>
      stat (disk c) p \<noteq> None
      \<and> attempted (self (visit now p c)) p = stat (disk c) p
      \<and> pending (self (visit now p c)) p = None
      \<and> processed (visit now p c) = processed c + 1
      \<and> calls (visit now p c) = calls c @ [p]
      \<and> disk (visit now p c) = snd (process_target (self c) p (disk c))
      \<and> processed_dirs (self (visit now p c)) =
           (if path_exists (disk (visit now p c)) p then processed_dirs (self c)
            else add_dir (parent p) (processed_dirs (self c))))
   \<and> run_once now (with_verdict v w) fs =
       (run_once now w fs)\<lparr>watcher_after :=
          with_verdict v (watcher_after (run_once now w fs))\<rparr>"
  using visit_effect [of now p c] run_once_with_verdict [of now v w fs] by auto

text \<open>
  The callback moves \<open>drop/show.mkv\<close> away: the file is recorded as attempted, its
  parent becomes a candidate, and a verdict of failure in place of success changes
  nothing.
\<close>

theorem dispatch_bookkeeping_ignores_verdict_witness:
  "calls (visit (seconds 0) [''drop'', ''show.mkv'']
       \<lparr>self = demo_watcher 0 False False move_file, disk = disk_one, processed = 0,
          seen_paths = {}, calls = []\<rparr>) \<noteq> []
   \<and> attempted (self (visit (seconds 0) [''drop'', ''show.mkv'']
       \<lparr>self = demo_watcher 0 False False move_file, disk = disk_one, processed = 0,
          seen_paths = {}, calls = []\<rparr>)) [''drop'', ''show.mkv''] = Some (FileState 4 7)
   \<and> pending (self (visit (seconds 0) [''drop'', ''show.mkv'']
       \<lparr>self = demo_watcher 0 False False move_file, disk = disk_one, processed = 0,
          seen_paths = {}, calls = []\<rparr>)) [''drop'', ''show.mkv''] = None
   \<and> processed (visit (seconds 0) [''drop'', ''show.mkv'']
       \<lparr>self = demo_watcher 0 False False move_file, disk = disk_one, processed = 0,
          seen_paths = {}, calls = []\<rparr>) = 1
   \<and> processed_dirs (self (visit (seconds 0) [''drop'', ''show.mkv'']
       \<lparr>self = demo_watcher 0 False False move_file, disk = disk_one, processed = 0,
          seen_paths = {}, calls = []\<rparr>)) = [[''drop'']]
   \<and> returned (run_once (seconds 0) (with_verdict (\<lambda>q f. False) (demo_watcher 0 False False move_file))
         disk_one) = 1"
proof -
  let ?p = "[''drop'', ''show.mkv'']"
  let ?w = "demo_watcher 0 False False move_file"
  let ?c = "\<lparr>self = ?w, disk = disk_one, processed = 0, seen_paths = {}, calls = []\<rparr>"
  have h: "calls (visit (seconds 0) ?p ?c) \<noteq> calls ?c"
    by (simp add: demo_defs disk_one_def model_defs)
  have s: "stat disk_one ?p = Some (FileState 4 7)"
    by (simp add: disk_one_def stat_def node_at_def)
  have e: "\<not> path_exists (snd (move_file ?p disk_one)) ?p"
    by (simp add: disk_one_def move_file_def path_exists_def node_at_def)
  have r: "returned (run_once (seconds 0) ?w disk_one) = 1"
    by (simp add: demo_defs disk_one_def model_defs)
  show ?thesis
    using h s e r
      dispatch_bookkeeping_ignores_verdict [of "seconds 0" ?p ?c "\<lambda>q f. False" ?w disk_one]
    by (simp add: demo_watcher_def add_dir_def parent_def)
qed

subsection \<open>A failing status read\<close>




subsection \<open>Float arithmetic\<close>

lemma dval_powr: "dval d = real_of_int (mantissa d) * 2 powr real_of_int (exponent d)"
  by (simp add: dval_def powr_int)

lemma double_less_int_iff: "double_less_int x n \<longleftrightarrow> dval x < real_of_int n"
proof (cases "0 \<le> exponent x")
  case True
  have "mantissa x * 2 ^ nat (exponent x) < n
          \<longleftrightarrow> real_of_int (mantissa x * 2 ^ nat (exponent x)) < real_of_int n"
    by (simp only: of_int_less_iff)
  then show ?thesis using True by (simp add: double_less_int_def dval_def)
next
  case False
  have "mantissa x < n * 2 ^ nat (- exponent x)
          \<longleftrightarrow> real_of_int (mantissa x) < real_of_int (n * 2 ^ nat (- exponent x))"
    by (simp only: of_int_less_iff)
  then show ?thesis using False by (simp add: double_less_int_def dval_def divide_less_eq)
qed

text \<open>A float minus itself is zero.\<close>

lemma fsub_self: "dval (fsub t t) = 0"
  by (simp add: fsub_def round_to_nearest_even_def bits.simps dval_def)

text \<open>A difference of at most 53 binary digits is exact.\<close>

lemma fsub_exact:
  assumes "bits (nat \<bar>mantissa a * 2 ^ nat (exponent a - min (exponent a) (exponent b))
                       - mantissa b * 2 ^ nat (exponent b - min (exponent a) (exponent b))\<bar>) \<le> 53"
  shows "dval (fsub a b) = dval a - dval b"
proof -
  let ?e = "min (exponent a) (exponent b)"
  have p: "(2::real) ^ nat (k - ?e) * 2 powr real_of_int ?e = 2 powr real_of_int k"
    if "?e \<le> k" for k
  proof -
    have "(2::real) powr real_of_int (k - ?e) = 2 ^ nat (k - ?e)"
      using that by (subst powr_int) simp_all
    then have "(2::real) ^ nat (k - ?e) * 2 powr real_of_int ?e
                 = 2 powr real_of_int (k - ?e) * 2 powr real_of_int ?e"
      by simp
    also have "\<dots> = 2 powr (real_of_int (k - ?e) + real_of_int ?e)"
      by (simp only: powr_add)
    also have "\<dots> = 2 powr real_of_int k" by simp
    finally show ?thesis .
  qed
  have "dval (fsub a b)
          = (real_of_int (mantissa a) * 2 ^ nat (exponent a - ?e)
             - real_of_int (mantissa b) * 2 ^ nat (exponent b - ?e)) * 2 powr real_of_int ?e"
    using assms by (simp add: fsub_def round_to_nearest_even_def Let_def dval_powr)
  also have "\<dots> = real_of_int (mantissa a) * ((2::real) ^ nat (exponent a - ?e) * 2 powr real_of_int ?e)
                  - real_of_int (mantissa b) * ((2::real) ^ nat (exponent b - ?e) * 2 powr real_of_int ?e)"
    by (simp add: algebra_simps)
  also have "\<dots> = dval a - dval b"
    using p [of "exponent a"] p [of "exponent b"] by (simp add: dval_powr)
  finally show ?thesis .
qed

text \<open>
  The two literals are the floats nearest to \<open>1/10\<close> and \<open>101/10\<close>, within half a unit
  in the last place, and their computed difference is the float 10.
\<close>

lemma float_literals:
  "\<bar>dval tenth - 1 / 10\<bar> \<le> 1 / 2 ^ 57 \<and> \<bar>dval ten_and_tenth - 101 / 10\<bar> \<le> 1 / 2 ^ 50
   \<and> fsub ten_and_tenth tenth = Double 5629499534213120 (- 49)
   \<and> dval (fsub ten_and_tenth tenth) = 10"
  by (simp add: tenth_def ten_and_tenth_def dval_def fsub_def round_to_nearest_even_def
        bits.simps Let_def)

subsection \<open>Settling\<close>

text \<open>Discovery reads the settings and the watch directory only.\<close>

lemma iter_files_cong:
  "settings w' = settings w \<Longrightarrow> watch_directory w' = watch_directory w \<Longrightarrow>
     iter_files w' fs = iter_files w fs"
  by (simp add: iter_files_def)

lemma sweep_without_candidates:
  "processed_dirs w = [] \<Longrightarrow>
     cleanup_processed_directories w fs = \<lparr>cands = [], tree = fs, notices = []\<rparr>"
  by (simp add: cleanup_processed_directories_def Let_def)

text \<open>A cycle over one file that is pending and has not settled yet.\<close>

lemma cycle_waits:
  assumes "iter_files w fs = [p]" and "stat fs p = Some st"
    and "pending w p = Some (st, t0)" and "attempted w p = None"
    and "processed_dirs w = []" and "dval (fsub t t0) < real_of_int (settle_seconds w)"
  shows "returned (run_once t w fs) = 0 \<and> disk_after (run_once t w fs) = fs
         \<and> watcher_after (run_once t w fs)
             = w\<lparr>pending := pending w |` {p}, attempted := attempted w |` {p}\<rparr>"
  using assms
  by (simp add: run_once_def run_loop_def visit_def prune_missing_def Let_def
        sweep_without_candidates double_less_int_iff)

text \<open>A cycle over one file that is pending and has settled.\<close>

lemma cycle_dispatches:
  assumes "iter_files w fs = [p]" and "stat fs p = Some st"
    and "pending w p = Some (st, t0)" and "attempted w p = None"
    and "real_of_int (settle_seconds w) \<le> dval (fsub t t0)"
  shows "returned (run_once t w fs) = 1 \<and> invoked (run_once t w fs) = [p]"
  using assms
  by (simp add: run_once_def run_loop_def visit_def dispatch_def Let_def double_less_int_iff)

text \<open>The first cycle over one file that the watcher has never seen.\<close>

lemma cycle_first_sight:
  assumes "iter_files w fs = [p]" and "stat fs p = Some st"
    and "pending w p = None" and "attempted w p = None" and "processed_dirs w = []"
    and "0 < settle_seconds w"
  shows "returned (run_once t w fs) = 0 \<and> disk_after (run_once t w fs) = fs
         \<and> watcher_after (run_once t w fs)
             = w\<lparr>pending := (pending w)(p \<mapsto> (st, t)) |` {p},
                  attempted := attempted w |` {p}\<rparr>"
  using assms
  by (simp add: run_once_def run_loop_def visit_def prune_missing_def Let_def
        sweep_without_candidates double_less_int_iff fsub_self)

lemma cycle_first_sight_no_settle:
  assumes "iter_files w fs = [p]" and "stat fs p = Some st"
    and "pending w p = None" and "attempted w p = None" and "settle_seconds w = 0"
  shows "returned (run_once t w fs) = 1 \<and> invoked (run_once t w fs) = [p]"
  using assms
  by (simp add: run_once_def run_loop_def visit_def dispatch_def Let_def
        double_less_int_iff fsub_self)

lemma waiting_cycles:
  assumes "iter_files w fs = [p]" and "stat fs p = Some st"
    and "pending w p = Some (st, t0)" and "attempted w p = None"
    and "processed_dirs w = []"
    and "\<forall>t \<in> set ts. dval (fsub t t0) < real_of_int (settle_seconds w)"
    and "real_of_int (settle_seconds w) \<le> dval (fsub t' t0)"
  shows "run_cycles w fs (ts @ [t']) = replicate (length ts) 0 @ [1]"
  using assms
proof (induction ts arbitrary: w)
  case Nil
  then show ?case by (simp add: cycle_dispatches)
next
  case (Cons t ts)
  let ?w = "w\<lparr>pending := pending w |` {p}, attempted := attempted w |` {p}\<rparr>"
  have c: "returned (run_once t w fs) = 0 \<and> disk_after (run_once t w fs) = fs
           \<and> watcher_after (run_once t w fs) = ?w"
    by (rule cycle_waits [where st = st and ?t0.0 = t0]) (use Cons.prems in simp_all)
  have i: "iter_files ?w fs = [p]"
    using Cons.prems(1) iter_files_cong [of ?w w fs] by simp
  have p1: "pending ?w p = Some (st, t0)" using Cons.prems(3) by simp
  have p2: "attempted ?w p = None" using Cons.prems(4) by simp
  have p3: "processed_dirs ?w = []" using Cons.prems(5) by simp
  have p4: "\<forall>t \<in> set ts. dval (fsub t t0) < real_of_int (settle_seconds ?w)"
    using Cons.prems(6) by simp
  have p5: "real_of_int (settle_seconds ?w) \<le> dval (fsub t' t0)"
    using Cons.prems(7) by simp
  have "run_cycles ?w fs (ts @ [t']) = replicate (length ts) 0 @ [1]"
    by (rule Cons.IH [OF i Cons.prems(2) p1 p2 p3 p4 p5])
  then show ?case using c by simp
qed

text \<open>
  Claim C4, as the spec states it, fails. A new watcher with a settle duration of 10
  sees one file first when the clock reads \<open>0.1\<close> and again when it reads \<open>10.1\<close>. The
  time elapsed between the two readings is below 10, so the claim has the second cycle
  return 0; but the float subtraction rounds the difference to 10, the test
  \<open>now - first_seen < 10\<close> fails, and the second cycle dispatches the file.
\<close>

theorem settle_rounding_counterexample:
  "settle_seconds (demo_watcher 10 False False keep_file) = 10
   \<and> iter_files (demo_watcher 10 False False keep_file) disk_one = [[''drop'', ''show.mkv'']]
   \<and> dval ten_and_tenth - dval tenth < 10
   \<and> run_cycles (demo_watcher 10 False False keep_file) disk_one [tenth, ten_and_tenth] = [0, 1]"
  by (simp add: demo_defs disk_one_def model_defs tenth_def ten_and_tenth_def dval_def)

text \<open>
  Claim C4, amended. A new watcher finds one file whose snapshot never changes and sees
  it first when the clock reads \<open>t0\<close>. With a settle duration above 0, \<open>run_once\<close>
  returns 0 at \<open>t0\<close> and at every later reading \<open>t\<close> for which the difference \<open>t - t0\<close>,
  as the float subtraction computes it, is below the duration, and returns 1 at the
  first reading \<open>t'\<close> for which the computed difference is at or above it. With a
  settle duration of 0 the first cycle returns 1.
\<close>

theorem settle_by_computed_difference:
  assumes "Watcher_init s cb = Inr w" and "iter_files w fs = [p]" and "stat fs p = Some st"
  shows "(0 < settle_seconds w \<longrightarrow>
            (\<forall>t \<in> set ts. dval (fsub t t0) < real_of_int (settle_seconds w)) \<longrightarrow>
            real_of_int (settle_seconds w) \<le> dval (fsub t' t0) \<longrightarrow>
            run_cycles w fs (t0 # ts @ [t']) = replicate (Suc (length ts)) 0 @ [1])
         \<and> (settle_seconds w = 0 \<longrightarrow>
              returned (run_once t0 w fs) = 1 \<and> invoked (run_once t0 w fs) = [p])"
proof -
  have fresh: "pending w p = None" "attempted w p = None" "processed_dirs w = []"
    using assms(1) by (auto simp: Watcher_init_def split: option.splits)
  have zero: "settle_seconds w = 0 \<longrightarrow>
                returned (run_once t0 w fs) = 1 \<and> invoked (run_once t0 w fs) = [p]"
    using cycle_first_sight_no_settle [of w fs p st t0] assms(2,3) fresh by simp
  have pos: "run_cycles w fs (t0 # ts @ [t']) = replicate (Suc (length ts)) 0 @ [1]"
    if S: "0 < settle_seconds w"
      and early: "\<forall>t \<in> set ts. dval (fsub t t0) < real_of_int (settle_seconds w)"
      and late: "real_of_int (settle_seconds w) \<le> dval (fsub t' t0)"
  proof -
    let ?w = "w\<lparr>pending := (pending w)(p \<mapsto> (st, t0)) |` {p},
                  attempted := attempted w |` {p}\<rparr>"
    have c: "returned (run_once t0 w fs) = 0 \<and> disk_after (run_once t0 w fs) = fs
             \<and> watcher_after (run_once t0 w fs) = ?w"
      by (rule cycle_first_sight) (use assms(2,3) fresh S in simp_all)
    have i: "iter_files ?w fs = [p]"
      using assms(2) iter_files_cong [of ?w w fs] by simp
    have p1: "pending ?w p = Some (st, t0)" by simp
    have p2: "attempted ?w p = None" using fresh by simp
    have p3: "processed_dirs ?w = []" using fresh by simp
    have p4: "\<forall>t \<in> set ts. dval (fsub t t0) < real_of_int (settle_seconds ?w)"
      using early by simp
    have p5: "real_of_int (settle_seconds ?w) \<le> dval (fsub t' t0)" using late by simp
    have "run_cycles ?w fs (ts @ [t']) = replicate (length ts) 0 @ [1]"
      by (rule waiting_cycles [OF i assms(3) p1 p2 p3 p4 p5])
    then show ?thesis using c by simp
  qed
  show ?thesis using zero pos by blast
qed

text \<open>
  The scenarios of the tests: a settle duration of 10 and the clock at 0, 5 and 11
  give 0, 0 and 1; a settle duration of 0 gives 1 at once.
\<close>

theorem settle_by_computed_difference_witness:
  "Watcher_init (demo_settings 10 False False) keep_file
       = Inr (demo_watcher 10 False False keep_file)
   \<and> iter_files (demo_watcher 10 False False keep_file) disk_one = [[''drop'', ''show.mkv'']]
   \<and> stat disk_one [''drop'', ''show.mkv''] = Some (FileState 4 7)
   \<and> 0 < settle_seconds (demo_watcher 10 False False keep_file)
   \<and> dval (fsub (seconds 5) (seconds 0)) = 5
   \<and> dval (fsub (seconds 11) (seconds 0)) = 11
   \<and> run_cycles (demo_watcher 10 False False keep_file) disk_one
        [seconds 0, seconds 5, seconds 11] = [0, 0, 1]
   \<and> Watcher_init (demo_settings 0 False False) keep_file
       = Inr (demo_watcher 0 False False keep_file)
   \<and> settle_seconds (demo_watcher 0 False False keep_file) = 0
   \<and> returned (run_once (seconds 0) (demo_watcher 0 False False keep_file) disk_one) = 1"
proof -
  let ?p = "[''drop'', ''show.mkv'']"
  have i10: "Watcher_init (demo_settings 10 False False) keep_file
               = Inr (demo_watcher 10 False False keep_file)"
    by (simp add: Watcher_init_def demo_defs)
  have i0: "Watcher_init (demo_settings 0 False False) keep_file
               = Inr (demo_watcher 0 False False keep_file)"
    by (simp add: Watcher_init_def demo_defs)
  have d10: "iter_files (demo_watcher 10 False False keep_file) disk_one = [?p]"
    by (simp add: demo_defs disk_one_def model_defs)
  have d0: "iter_files (demo_watcher 0 False False keep_file) disk_one = [?p]"
    by (simp add: demo_defs disk_one_def model_defs)
  have s: "stat disk_one ?p = Some (FileState 4 7)"
    by (simp add: disk_one_def stat_def node_at_def)
  have S10: "settle_seconds (demo_watcher 10 False False keep_file) = 10"
    by (simp add: demo_watcher_def)
  have S0: "settle_seconds (demo_watcher 0 False False keep_file) = 0"
    by (simp add: demo_watcher_def)
  have f5: "dval (fsub (seconds 5) (seconds 0)) = 5"
    by (simp add: fsub_def round_to_nearest_even_def seconds_def bits.simps dval_def)
  have f11: "dval (fsub (seconds 11) (seconds 0)) = 11"
    by (simp add: fsub_def round_to_nearest_even_def seconds_def bits.simps dval_def)
  have a: "run_cycles (demo_watcher 10 False False keep_file) disk_one
             [seconds 0, seconds 5, seconds 11] = [0, 0, 1]"
    using settle_by_computed_difference [OF i10 d10 s, of "[seconds 5]" "seconds 0" "seconds 11"]
      S10 f5 f11
    by (simp add: numeral_2_eq_2)
  have b: "returned (run_once (seconds 0) (demo_watcher 0 False False keep_file) disk_one) = 1"
    using settle_by_computed_difference [OF i0 d0 s, of "[]" "seconds 0" "seconds 0"] S0 by simp
  show ?thesis using i10 i0 d10 s S10 S0 f5 f11 a b by simp
qed

section \<open>Properties of the cleanup sweep\<close>

subsection \<open>Removing from the tree\<close>

lemma map_of_filter_key:
  "map_of [e \<leftarrow> xs. Q (fst e)] p = (if Q p then map_of xs p else None)"
  by (induction xs) auto

lemma rmtree_Some:
  assumes "rmtree fs d = Some fs'"
  shows "fs' = fs\<lparr>entries := [e \<leftarrow> entries fs. \<not> prefix d (fst e)]\<rparr> \<and> is_dir fs d"
  using assms by (auto simp: rmtree_def split: if_splits)

lemma rmdir_Some:
  assumes "rmdir fs d = Some fs'"
  shows "fs' = fs\<lparr>entries := [e \<leftarrow> entries fs. fst e \<noteq> d]\<rparr> \<and> is_dir fs d"
  using assms by (auto simp: rmdir_def iterdir_def split: option.splits if_splits)

lemma rmtree_node_at:
  "rmtree fs d = Some fs' \<Longrightarrow> node_at fs' p = (if prefix d p then None else node_at fs p)"
  using map_of_filter_key [of "\<lambda>q. \<not> prefix d q" "entries fs" p]
  by (auto dest!: rmtree_Some simp: node_at_def)

lemma rmdir_node_at:
  "rmdir fs d = Some fs' \<Longrightarrow> node_at fs' p = (if p = d then None else node_at fs p)"
  using map_of_filter_key [of "\<lambda>q. q \<noteq> d" "entries fs" p]
  by (auto dest!: rmdir_Some simp: node_at_def)

text \<open>A directory has masked files when a masked file of the tree lies at or below it.\<close>

lemma has_masked_files_iff:
  "has_masked_files w fs d \<longleftrightarrow> (\<exists>e \<in> set (masked_files w fs). prefix d (fst e))"
  by (auto simp: has_masked_files_def crawl_in_def filter_containers_def masked_files_def
        filter_empty_conv)

lemma has_masked_files_above:
  "has_masked_files w fs d \<Longrightarrow> prefix c d \<Longrightarrow> has_masked_files w fs c"
  by (auto simp: has_masked_files_iff intro: prefix_order.trans)

lemma masked_file_has_masked:
  assumes "node_at fs p = Some (File st)" and "mask_match (settings w) p" and "prefix c p"
  shows "has_masked_files w fs c"
proof -
  have "(p, File st) \<in> set (entries fs)"
    using assms(1) by (auto simp: node_at_def dest: map_of_SomeD)
  then have "(p, File st) \<in> set (masked_files w fs)"
    using assms(2) by (simp add: masked_files_def)
  then show ?thesis using assms(3) by (force simp: has_masked_files_iff)
qed

lemma rmtree_keeps_masked:
  assumes "rmtree fs d = Some fs'" and "\<not> has_masked_files w fs d"
  shows "masked_files w fs' = masked_files w fs"
proof -
  have "\<forall>e \<in> set (masked_files w fs). \<not> prefix d (fst e)"
    using assms(2) by (simp add: has_masked_files_iff)
  then have "[e \<leftarrow> masked_files w fs. \<not> prefix d (fst e)] = masked_files w fs"
    by (simp add: filter_id_conv)
  moreover have "masked_files w fs' = [e \<leftarrow> masked_files w fs. \<not> prefix d (fst e)]"
    using rmtree_Some [OF assms(1)] by (auto simp: masked_files_def intro: filter_cong)
  ultimately show ?thesis by simp
qed

lemma rmdir_keeps_masked:
  assumes "rmdir fs d = Some fs'" and "\<not> has_masked_files w fs d"
  shows "masked_files w fs' = masked_files w fs"
proof -
  have "\<forall>e \<in> set (masked_files w fs). fst e \<noteq> d"
    using assms(2) by (auto simp: has_masked_files_iff)
  then have "[e \<leftarrow> masked_files w fs. fst e \<noteq> d] = masked_files w fs"
    by (simp add: filter_id_conv)
  moreover have "masked_files w fs' = [e \<leftarrow> masked_files w fs. fst e \<noteq> d]"
    using rmdir_Some [OF assms(1)]
    by (auto simp: masked_files_def intro: filter_cong)
  ultimately show ?thesis by simp
qed

subsection \<open>One candidate\<close>

text \<open>
  The step for one candidate leaves the tree and the notices alone, or deletes the
  candidate and says so; it deletes only an existing candidate that does not resolve
  to the watch root and holds no masked file.
\<close>

lemma cleanup_dir_cases:
  "(tree (cleanup_dir w r d s) = tree s \<and> notices (cleanup_dir w r d s) = notices s)
   \<or> (path_exists (tree s) d \<and> resolve (tree s) d \<noteq> r \<and> \<not> has_masked_files w (tree s) d
      \<and> d \<notin> set (cands (cleanup_dir w r d s))
      \<and> ((self_cleanup_processed_source_dirs w
            \<and> rmtree (tree s) d = Some (tree (cleanup_dir w r d s))
            \<and> notices (cleanup_dir w r d s) = notices s @ [DeletedProcessed d])
         \<or> (\<not> self_cleanup_processed_source_dirs w \<and> self_cleanup_empty_source_dirs w
            \<and> rmdir (tree s) d = Some (tree (cleanup_dir w r d s))
            \<and> notices (cleanup_dir w r d s) = notices s @ [DeletedEmpty d])))"
  by (simp add: cleanup_dir_def Let_def discard_def split: option.splits)

lemma cleanup_dir_same_masked:
  "masked_files w (tree (cleanup_dir w r d s)) = masked_files w (tree s)
   \<and> denied (tree (cleanup_dir w r d s)) = denied (tree s)
   \<and> resolve (tree (cleanup_dir w r d s)) = resolve (tree s)"
  using cleanup_dir_cases [of w r d s]
  by (auto simp: rmtree_keeps_masked rmdir_keeps_masked dest: rmtree_Some rmdir_Some)

lemma cleanup_dir_node_at:
  assumes "node_at (tree (cleanup_dir w r d s)) p \<noteq> node_at (tree s) p"
  shows "prefix d p \<and> resolve (tree s) d \<noteq> r \<and> \<not> has_masked_files w (tree s) d
         \<and> (\<not> self_cleanup_processed_source_dirs w \<longrightarrow> p = d \<and> is_dir (tree s) d)"
  using cleanup_dir_cases [of w r d s] assms
  by (auto simp: rmtree_node_at rmdir_node_at dest: rmdir_Some split: if_splits)

lemma cleanup_dir_notices:
  assumes "n \<in> set (notices (cleanup_dir w r d s))" and "n \<notin> set (notices s)"
  shows "dir_of n = d \<and> resolve (tree s) d \<noteq> r \<and> \<not> has_masked_files w (tree s) d
         \<and> (n = DeletedProcessed d \<longrightarrow> self_cleanup_processed_source_dirs w)"
  using cleanup_dir_cases [of w r d s] assms by auto

lemma cleanup_dir_cands_other:
  "c \<noteq> d \<Longrightarrow> d \<in> set (cands (cleanup_dir w r c s)) \<longleftrightarrow> d \<in> set (cands s)"
  by (simp add: cleanup_dir_def Let_def discard_def split: option.splits)

lemma cleanup_dir_cands_self:
  assumes "self_cleanup_empty_source_dirs w \<or> self_cleanup_processed_source_dirs w"
    and "d \<in> set (cands s)"
  shows "d \<in> set (cands (cleanup_dir w r d s)) \<longleftrightarrow>
           path_exists (tree s) d
           \<and> (resolve (tree s) d = r \<or> has_masked_files w (tree s) d
              \<or> removal_fails w (tree s) d)"
  using assms
  by (auto simp: cleanup_dir_def Let_def discard_def removal_fails_def split: option.splits)

subsection \<open>The whole sweep\<close>

lemma sweep_same_masked:
  "masked_files w (tree (fold (cleanup_dir w r) ds s)) = masked_files w (tree s)
   \<and> denied (tree (fold (cleanup_dir w r) ds s)) = denied (tree s)
   \<and> resolve (tree (fold (cleanup_dir w r) ds s)) = resolve (tree s)"
  by (induction ds arbitrary: s) (simp_all add: cleanup_dir_same_masked)

lemma sweep_same_has_masked:
  "has_masked_files w (tree (fold (cleanup_dir w r) ds s)) d = has_masked_files w (tree s) d"
proof -
  have "masked_files w (tree (fold (cleanup_dir w r) ds s)) = masked_files w (tree s)"
    using sweep_same_masked [of w r ds s] by blast
  then show ?thesis unfolding has_masked_files_iff by simp
qed

text \<open>
  Whatever the sweep changes in the tree lies at or below a candidate that does not
  resolve to the watch root and holds no masked file.
\<close>

lemma sweep_node_at:
  assumes "node_at (tree (fold (cleanup_dir w r) ds s)) p \<noteq> node_at (tree s) p"
  shows "\<exists>c \<in> set ds. prefix c p \<and> resolve (tree s) c \<noteq> r
           \<and> \<not> has_masked_files w (tree s) c"
  using assms
proof (induction ds arbitrary: s)
  case Nil
  then show ?case by simp
next
  case (Cons d ds)
  let ?s = "cleanup_dir w r d s"
  show ?case
  proof (cases "node_at (tree ?s) p = node_at (tree s) p")
    case True
    then have "node_at (tree (fold (cleanup_dir w r) ds ?s)) p \<noteq> node_at (tree ?s) p"
      using Cons.prems by simp
    then obtain c where "c \<in> set ds" "prefix c p" "resolve (tree ?s) c \<noteq> r"
        "\<not> has_masked_files w (tree ?s) c"
      using Cons.IH by blast
    then show ?thesis
      using cleanup_dir_same_masked [of w r d s] by (auto simp: has_masked_files_iff)
  next
    case False
    then show ?thesis using cleanup_dir_node_at [of w r d s p] by auto
  qed
qed

lemma sweep_notices:
  assumes "n \<in> set (notices (fold (cleanup_dir w r) ds s))" and "n \<notin> set (notices s)"
  shows "dir_of n \<in> set ds \<and> resolve (tree s) (dir_of n) \<noteq> r
         \<and> \<not> has_masked_files w (tree s) (dir_of n)
         \<and> ((\<exists>d. n = DeletedProcessed d) \<longrightarrow> self_cleanup_processed_source_dirs w)"
  using assms
proof (induction ds arbitrary: s)
  case Nil
  then show ?case by simp
next
  case (Cons d ds)
  let ?s = "cleanup_dir w r d s"
  show ?case
  proof (cases "n \<in> set (notices ?s)")
    case True
    then show ?thesis using cleanup_dir_notices [of n w r d s] Cons.prems(2) by auto
  next
    case False
    then have "dir_of n \<in> set ds \<and> resolve (tree ?s) (dir_of n) \<noteq> r
         \<and> \<not> has_masked_files w (tree ?s) (dir_of n)
         \<and> ((\<exists>d. n = DeletedProcessed d) \<longrightarrow> self_cleanup_processed_source_dirs w)"
      using Cons.IH [of ?s] Cons.prems(1) by simp
    then show ?thesis
      using cleanup_dir_same_masked [of w r d s] by (auto simp: has_masked_files_iff)
  qed
qed

text \<open>Outside the recursive mode the sweep removes directories only.\<close>

lemma sweep_keeps_files:
  assumes "\<not> self_cleanup_processed_source_dirs w" and "node_at (tree s) p = Some (File st)"
  shows "node_at (tree (fold (cleanup_dir w r) ds s)) p = Some (File st)"
  using assms(2)
proof (induction ds arbitrary: s)
  case Nil
  then show ?case by simp
next
  case (Cons d ds)
  have "node_at (tree (cleanup_dir w r d s)) p = node_at (tree s) p"
  proof (rule ccontr)
    assume "node_at (tree (cleanup_dir w r d s)) p \<noteq> node_at (tree s) p"
    then have "p = d \<and> is_dir (tree s) d"
      using cleanup_dir_node_at [of w r d s p] assms(1) by blast
    then show False using Cons.prems by (simp add: is_dir_def)
  qed
  then show ?case using Cons.IH [of "cleanup_dir w r d s"] Cons.prems by simp
qed

lemma sweep_cands_other:
  "d \<notin> set ds \<Longrightarrow> d \<in> set (cands (fold (cleanup_dir w r) ds s)) \<longleftrightarrow> d \<in> set (cands s)"
proof (induction ds arbitrary: s)
  case Nil
  then show ?case by simp
next
  case (Cons c ds)
  have "c \<noteq> d" and "d \<notin> set ds" using Cons.prems by auto
  then show ?case
    using Cons.IH [of "cleanup_dir w r c s"] cleanup_dir_cands_other [of c d w r s] by simp
qed

lemmas sweep_defs = left_watcher_def root_watcher_def disk_left_def disk_bare_def
  disk_release_def move_unless_b_def

text \<open>The sweep is the loop over some of the candidates, from the state it starts in.\<close>

lemma sweep_is_fold:
  "\<exists>ds. set ds \<subseteq> set (processed_dirs w)
     \<and> cleanup_processed_directories w fs
         = fold (cleanup_dir w (resolve fs (watch_directory w))) ds
             \<lparr>cands = processed_dirs w, tree = fs, notices = []\<rparr>"
proof (cases "\<not> self_cleanup_empty_source_dirs w \<and> \<not> self_cleanup_processed_source_dirs w")
  case True
  then have "cleanup_processed_directories w fs
         = fold (cleanup_dir w (resolve fs (watch_directory w))) []
             \<lparr>cands = processed_dirs w, tree = fs, notices = []\<rparr>"
    by (simp add: cleanup_processed_directories_def Let_def)
  then show ?thesis by (intro exI [of _ "[]"]) simp
next
  case False
  then have "cleanup_processed_directories w fs
         = fold (cleanup_dir w (resolve fs (watch_directory w))) (processed_dirs w)
             \<lparr>cands = processed_dirs w, tree = fs, notices = []\<rparr>"
    by (auto simp: cleanup_processed_directories_def Let_def)
  then show ?thesis by (intro exI [of _ "processed_dirs w"]) simp
qed

lemma cleanup_node_at:
  assumes "node_at (tree (cleanup_processed_directories w fs)) p \<noteq> node_at fs p"
  shows "\<exists>c \<in> set (processed_dirs w). prefix c p
           \<and> resolve fs c \<noteq> resolve fs (watch_directory w) \<and> \<not> has_masked_files w fs c"
proof -
  obtain ds where ds: "set ds \<subseteq> set (processed_dirs w)"
    "cleanup_processed_directories w fs
       = fold (cleanup_dir w (resolve fs (watch_directory w))) ds
           \<lparr>cands = processed_dirs w, tree = fs, notices = []\<rparr>"
    using sweep_is_fold by blast
  show ?thesis
    using sweep_node_at [of w "resolve fs (watch_directory w)" ds
        "\<lparr>cands = processed_dirs w, tree = fs, notices = []\<rparr>" p] assms ds
    by auto
qed

lemma cleanup_notices:
  assumes "n \<in> set (notices (cleanup_processed_directories w fs))"
  shows "dir_of n \<in> set (processed_dirs w)
         \<and> resolve fs (dir_of n) \<noteq> resolve fs (watch_directory w)
         \<and> \<not> has_masked_files w fs (dir_of n)
         \<and> ((\<exists>d. n = DeletedProcessed d) \<longrightarrow> self_cleanup_processed_source_dirs w)"
proof -
  obtain ds where ds: "set ds \<subseteq> set (processed_dirs w)"
    "cleanup_processed_directories w fs
       = fold (cleanup_dir w (resolve fs (watch_directory w))) ds
           \<lparr>cands = processed_dirs w, tree = fs, notices = []\<rparr>"
    using sweep_is_fold by blast
  show ?thesis
    using sweep_notices [of n w "resolve fs (watch_directory w)" ds
        "\<lparr>cands = processed_dirs w, tree = fs, notices = []\<rparr>"] assms ds
    by auto
qed

lemma cleanup_keeps_files:
  assumes "\<not> self_cleanup_processed_source_dirs w" and "node_at fs p = Some (File st)"
  shows "node_at (tree (cleanup_processed_directories w fs)) p = Some (File st)"
proof -
  obtain ds where ds:
    "cleanup_processed_directories w fs
       = fold (cleanup_dir w (resolve fs (watch_directory w))) ds
           \<lparr>cands = processed_dirs w, tree = fs, notices = []\<rparr>"
    using sweep_is_fold by blast
  show ?thesis
    using sweep_keeps_files [of w "\<lparr>cands = processed_dirs w, tree = fs, notices = []\<rparr>" p st
        "resolve fs (watch_directory w)" ds] assms ds
    by simp
qed

subsection \<open>The watch root\<close>

text \<open>
  Claim C2. A candidate whose resolved path is the resolved watch directory is never
  deleted by the sweep, whatever the two flags say: the sweep announces no deletion of
  it, and when every candidate at or above it resolves to the watch root as well, its
  entry in the tree is after the sweep what it was before.
\<close>

theorem watch_root_never_deleted:
  assumes "resolve fs d = resolve fs (watch_directory w)"
  shows "DeletedProcessed d \<notin> set (notices (cleanup_processed_directories w fs))
         \<and> DeletedEmpty d \<notin> set (notices (cleanup_processed_directories w fs))
         \<and> ((\<forall>c \<in> set (processed_dirs w). prefix c d \<longrightarrow>
                 resolve fs c = resolve fs (watch_directory w)) \<longrightarrow>
              node_at (tree (cleanup_processed_directories w fs)) d = node_at fs d)"
proof -
  have "DeletedProcessed d \<notin> set (notices (cleanup_processed_directories w fs))"
    using cleanup_notices [of "DeletedProcessed d" w fs] assms by auto
  moreover have "DeletedEmpty d \<notin> set (notices (cleanup_processed_directories w fs))"
    using cleanup_notices [of "DeletedEmpty d" w fs] assms by auto
  moreover have "node_at (tree (cleanup_processed_directories w fs)) d = node_at fs d"
    if "\<forall>c \<in> set (processed_dirs w). prefix c d \<longrightarrow>
          resolve fs c = resolve fs (watch_directory w)"
    using cleanup_node_at [of w fs d] that by blast
  ultimately show ?thesis by blast
qed

text \<open>
  The watch directory is empty and a candidate, and both flags are set: the sweep
  leaves it in place.
\<close>

theorem watch_root_never_deleted_witness:
  "resolve disk_bare [''drop''] = resolve disk_bare (watch_directory root_watcher)
   \<and> [''drop''] \<in> set (processed_dirs root_watcher)
   \<and> self_cleanup_empty_source_dirs root_watcher
   \<and> self_cleanup_processed_source_dirs root_watcher
   \<and> iterdir disk_bare [''drop''] = Some []
   \<and> DeletedProcessed [''drop''] \<notin> set (notices (cleanup_processed_directories root_watcher disk_bare))
   \<and> DeletedEmpty [''drop''] \<notin> set (notices (cleanup_processed_directories root_watcher disk_bare))
   \<and> node_at (tree (cleanup_processed_directories root_watcher disk_bare)) [''drop'']
       = Some (Dir (FileState 0 1))"
proof -
  have h: "resolve disk_bare [''drop''] = resolve disk_bare (watch_directory root_watcher)"
    by (simp add: sweep_defs demo_defs)
  have a: "\<forall>c \<in> set (processed_dirs root_watcher). prefix c [''drop''] \<longrightarrow>
             resolve disk_bare c = resolve disk_bare (watch_directory root_watcher)"
    by (simp add: sweep_defs demo_defs)
  have n: "node_at disk_bare [''drop''] = Some (Dir (FileState 0 1))"
    by (simp add: disk_bare_def node_at_def)
  have f: "[''drop''] \<in> set (processed_dirs root_watcher)
           \<and> self_cleanup_empty_source_dirs root_watcher
           \<and> self_cleanup_processed_source_dirs root_watcher
           \<and> iterdir disk_bare [''drop''] = Some []"
    by (simp add: sweep_defs demo_defs model_defs)
  show ?thesis
    using h a n f watch_root_never_deleted [OF h] by simp
qed

subsection \<open>The recursive mode needs both flags\<close>

lemma run_once_flags:
  "self_cleanup_empty_source_dirs (watcher_after (run_once now w fs))
     = self_cleanup_empty_source_dirs w
   \<and> self_cleanup_processed_source_dirs (watcher_after (run_once now w fs))
       = self_cleanup_processed_source_dirs w"
  by (simp add: run_once_def Let_def prune_missing_def run_loop_def fold_visit_flags)

lemma init_configured: "Watcher_init s cb = Inr w \<Longrightarrow> configured s w"
  by (auto simp: Watcher_init_def configured_def split: option.splits)

lemma sweep_disabled:
  assumes "\<not> self_cleanup_empty_source_dirs w" and "\<not> self_cleanup_processed_source_dirs w"
  shows "cleanup_processed_directories w fs
           = \<lparr>cands = processed_dirs w, tree = fs, notices = []\<rparr>"
  using assms by (simp add: cleanup_processed_directories_def Let_def)

text \<open>
  Claim C5. The flag of the recursive mode that the watcher holds is the conjunction of
  the two settings, at construction and after every cycle. So the sweep removes a whole
  tree only when both settings are enabled; with \<open>cleanup_empty_source_dirs\<close> disabled
  the sweep changes nothing, whatever \<open>cleanup_processed_source_dirs\<close> says; and unless
  both are enabled the sweep removes no file.
\<close>

theorem recursive_cleanup_needs_both_flags:
  "(Watcher_init s cb = Inr w0 \<longrightarrow> configured s w0)
   \<and> (configured s w \<longrightarrow> configured s (watcher_after (run_once now w fs)))
   \<and> (configured s w \<longrightarrow>
        DeletedProcessed d \<in> set (notices (cleanup_processed_directories w fs)) \<longrightarrow>
        cleanup_empty_source_dirs s \<and> cleanup_processed_source_dirs s)
   \<and> (configured s w \<longrightarrow> \<not> cleanup_empty_source_dirs s \<longrightarrow>
        cleanup_processed_directories w fs
          = \<lparr>cands = processed_dirs w, tree = fs, notices = []\<rparr>)
   \<and> (configured s w \<longrightarrow>
        \<not> (cleanup_empty_source_dirs s \<and> cleanup_processed_source_dirs s) \<longrightarrow>
        node_at fs p = Some (File st) \<longrightarrow>
        node_at (tree (cleanup_processed_directories w fs)) p = Some (File st))"
proof -
  have a: "Watcher_init s cb = Inr w0 \<longrightarrow> configured s w0"
    using init_configured by blast
  have b: "configured s w \<longrightarrow> configured s (watcher_after (run_once now w fs))"
    by (simp add: configured_def run_once_flags)
  have c: "configured s w \<longrightarrow>
        DeletedProcessed d \<in> set (notices (cleanup_processed_directories w fs)) \<longrightarrow>
        cleanup_empty_source_dirs s \<and> cleanup_processed_source_dirs s"
    using cleanup_notices [of "DeletedProcessed d" w fs] by (auto simp: configured_def)
  have d: "configured s w \<longrightarrow> \<not> cleanup_empty_source_dirs s \<longrightarrow>
        cleanup_processed_directories w fs
          = \<lparr>cands = processed_dirs w, tree = fs, notices = []\<rparr>"
    using sweep_disabled [of w fs] by (auto simp: configured_def)
  have e: "configured s w \<longrightarrow>
        \<not> (cleanup_empty_source_dirs s \<and> cleanup_processed_source_dirs s) \<longrightarrow>
        node_at fs p = Some (File st) \<longrightarrow>
        node_at (tree (cleanup_processed_directories w fs)) p = Some (File st)"
    using cleanup_keeps_files [of w fs p st] by (auto simp: configured_def)
  show ?thesis using a b c d e by blast
qed

text \<open>
  The last scenario of the tests: with only \<open>cleanup_processed_source_dirs\<close> enabled the
  release directory and what it holds stay. With both settings the subdirectory that
  holds no media file is removed as a whole.
\<close>

theorem recursive_cleanup_needs_both_flags_witness:
  "Watcher_init (demo_settings 0 False True) keep_file = Inr (demo_watcher 0 False True keep_file)
   \<and> configured (demo_settings 0 False True) (demo_watcher 0 False True keep_file)
   \<and> configured (demo_settings 0 False True) (left_watcher False True)
   \<and> configured (demo_settings 0 False True)
        (watcher_after (run_once (seconds 0) (left_watcher False True) disk_left))
   \<and> \<not> self_cleanup_processed_source_dirs (left_watcher False True)
   \<and> cleanup_processed_directories (left_watcher False True) disk_left
       = \<lparr>cands = processed_dirs (left_watcher False True), tree = disk_left, notices = []\<rparr>
   \<and> node_at disk_left [''drop'', ''release'', ''Screens'', ''screen1.jpg'']
       = Some (File (FileState 7 7))
   \<and> node_at (tree (cleanup_processed_directories (left_watcher False True) disk_left))
        [''drop'', ''release'', ''Screens'', ''screen1.jpg''] = Some (File (FileState 7 7))
   \<and> configured (demo_settings 0 True True) (left_watcher True True)
   \<and> DeletedProcessed [''drop'', ''release'', ''Screens'']
        \<in> set (notices (cleanup_processed_directories (left_watcher True True) disk_left))
   \<and> cleanup_empty_source_dirs (demo_settings 0 True True)
   \<and> cleanup_processed_source_dirs (demo_settings 0 True True)"
proof -
  let ?s = "demo_settings 0 False True"
  let ?w = "left_watcher False True"
  let ?p = "[''drop'', ''release'', ''Screens'', ''screen1.jpg'']"
  have i: "Watcher_init ?s keep_file = Inr (demo_watcher 0 False True keep_file)"
    by (simp add: Watcher_init_def demo_defs)
  have c1: "configured ?s ?w"
    by (simp add: configured_def sweep_defs demo_defs)
  have off: "\<not> cleanup_empty_source_dirs ?s
             \<and> \<not> (cleanup_empty_source_dirs ?s \<and> cleanup_processed_source_dirs ?s)"
    by (simp add: demo_settings_def)
  have f: "\<not> self_cleanup_processed_source_dirs ?w"
    by (simp add: sweep_defs demo_defs)
  have n: "node_at disk_left ?p = Some (File (FileState 7 7))"
    by (simp add: disk_left_def node_at_def)
  have c2: "configured (demo_settings 0 True True) (left_watcher True True)"
    by (simp add: configured_def sweep_defs demo_defs)
  have del: "DeletedProcessed [''drop'', ''release'', ''Screens'']
        \<in> set (notices (cleanup_processed_directories (left_watcher True True) disk_left))"
    by (simp add: sweep_defs demo_defs model_defs)
  show ?thesis
    using i c1 off f n c2 del
      recursive_cleanup_needs_both_flags [of ?s keep_file "demo_watcher 0 False True keep_file"
        ?w "seconds 0" disk_left "[''drop'', ''release'']" ?p "FileState 7 7"]
      recursive_cleanup_needs_both_flags [of "demo_settings 0 True True" keep_file
        "demo_watcher 0 True True keep_file" "left_watcher True True" "seconds 0" disk_left
        "[''drop'', ''release'', ''Screens'']" ?p "FileState 7 7"]
    by simp
qed

subsection \<open>Directories that still hold masked files\<close>

text \<open>
  Claim C1, as the spec states it, fails. A cycle moves \<open>a.mkv\<close> and \<open>Screens/c.mkv\<close>
  away and fails on \<open>b.mkv\<close>. The release directory is then a candidate that still
  holds a masked file, and the sweep of the same cycle removes its subdirectory
  \<open>Screens\<close> with the picture inside, which are contents of the release directory.
\<close>

theorem masked_directory_contents_counterexample:
  "[''drop'', ''release'']
       \<in> set (processed_dirs (self (run_loop (seconds 0) (demo_watcher 0 True True move_unless_b) disk_release)))
   \<and> has_masked_files (self (run_loop (seconds 0) (demo_watcher 0 True True move_unless_b) disk_release))
         (disk (run_loop (seconds 0) (demo_watcher 0 True True move_unless_b) disk_release))
         [''drop'', ''release'']
   \<and> prefix [''drop'', ''release''] [''drop'', ''release'', ''Screens'', ''screen1.jpg'']
   \<and> path_exists (disk (run_loop (seconds 0) (demo_watcher 0 True True move_unless_b) disk_release))
         [''drop'', ''release'', ''Screens'', ''screen1.jpg'']
   \<and> \<not> path_exists (disk_after (run_once (seconds 0) (demo_watcher 0 True True move_unless_b) disk_release))
         [''drop'', ''release'', ''Screens'', ''screen1.jpg'']
   \<and> announced (run_once (seconds 0) (demo_watcher 0 True True move_unless_b) disk_release)
       = [DeletedProcessed [''drop'', ''release'', ''Screens'']]"
  by (simp add: sweep_defs demo_defs model_defs)

text \<open>
  Claim C1, amended. If a directory still holds, at any depth, a file that matches the
  mask, then the sweep does not delete that directory and does not delete a masked file
  in it, whatever the two flags say; whatever else it removes inside lies in another
  candidate, nested in that directory, that holds no masked file itself.
\<close>

theorem masked_directory_survives_sweep:
  assumes "has_masked_files w fs d"
  shows "DeletedProcessed d \<notin> set (notices (cleanup_processed_directories w fs))
         \<and> DeletedEmpty d \<notin> set (notices (cleanup_processed_directories w fs))
         \<and> node_at (tree (cleanup_processed_directories w fs)) d = node_at fs d
         \<and> (\<forall>p st. prefix d p \<longrightarrow> mask_match (settings w) p \<longrightarrow>
               node_at fs p = Some (File st) \<longrightarrow>
               node_at (tree (cleanup_processed_directories w fs)) p = Some (File st))
         \<and> (\<forall>p. prefix d p \<longrightarrow>
               node_at (tree (cleanup_processed_directories w fs)) p \<noteq> node_at fs p \<longrightarrow>
               (\<exists>c \<in> set (processed_dirs w).
                   strict_prefix d c \<and> prefix c p \<and> \<not> has_masked_files w fs c))"
proof -
  let ?S = "cleanup_processed_directories w fs"
  have n1: "DeletedProcessed d \<notin> set (notices ?S)"
    using cleanup_notices [of "DeletedProcessed d" w fs] assms by auto
  have n2: "DeletedEmpty d \<notin> set (notices ?S)"
    using cleanup_notices [of "DeletedEmpty d" w fs] assms by auto
  have below: "\<exists>c \<in> set (processed_dirs w).
                 strict_prefix d c \<and> prefix c p \<and> \<not> has_masked_files w fs c"
    if p: "prefix d p" and ch: "node_at (tree ?S) p \<noteq> node_at fs p" for p
  proof -
    obtain c where c: "c \<in> set (processed_dirs w)" "prefix c p" "\<not> has_masked_files w fs c"
      using cleanup_node_at [OF ch] by blast
    have "\<not> prefix c d"
      using c(3) assms has_masked_files_above by blast
    moreover have "prefix c d \<or> prefix d c"
      using p c(2) prefix_same_cases by blast
    ultimately have "strict_prefix d c"
      by (auto simp: strict_prefix_def)
    then show ?thesis using c by blast
  qed
  have self: "node_at (tree ?S) d = node_at fs d"
  proof (rule ccontr)
    assume "node_at (tree ?S) d \<noteq> node_at fs d"
    then obtain c where "strict_prefix d c" "prefix c d"
      using below [of d] by auto
    then show False by (auto simp: strict_prefix_def)
  qed
  have files: "node_at (tree ?S) p = Some (File st)"
    if "mask_match (settings w) p" and f: "node_at fs p = Some (File st)" for p st
  proof (rule ccontr)
    assume "node_at (tree ?S) p \<noteq> Some (File st)"
    then have "node_at (tree ?S) p \<noteq> node_at fs p" using f by simp
    then obtain c where "prefix c p" "\<not> has_masked_files w fs c"
      using cleanup_node_at by blast
    then show False using masked_file_has_masked [OF f that(1)] by blast
  qed
  show ?thesis using n1 n2 self files below by blast
qed

text \<open>
  In the state that the cycle above leaves for the sweep, the release directory and
  \<open>b.mkv\<close> stay, and what goes lies in the candidate \<open>Screens\<close>.
\<close>

theorem masked_directory_survives_sweep_witness:
  "has_masked_files (left_watcher True True) disk_left [''drop'', ''release'']
   \<and> DeletedProcessed [''drop'', ''release'']
        \<notin> set (notices (cleanup_processed_directories (left_watcher True True) disk_left))
   \<and> DeletedEmpty [''drop'', ''release'']
        \<notin> set (notices (cleanup_processed_directories (left_watcher True True) disk_left))
   \<and> node_at (tree (cleanup_processed_directories (left_watcher True True) disk_left))
        [''drop'', ''release''] = Some (Dir (FileState 0 2))
   \<and> node_at (tree (cleanup_processed_directories (left_watcher True True) disk_left))
        [''drop'', ''release'', ''b.mkv''] = Some (File (FileState 5 4))
   \<and> node_at (tree (cleanup_processed_directories (left_watcher True True) disk_left))
        [''drop'', ''release'', ''Screens'', ''screen1.jpg''] = None"
proof -
  let ?w = "left_watcher True True"
  let ?d = "[''drop'', ''release'']"
  let ?b = "[''drop'', ''release'', ''b.mkv'']"
  have h: "has_masked_files ?w disk_left ?d"
    by (simp add: sweep_defs demo_defs model_defs)
  have d: "node_at disk_left ?d = Some (Dir (FileState 0 2))"
    by (simp add: disk_left_def node_at_def)
  have b: "prefix ?d ?b \<and> mask_match (settings ?w) ?b
           \<and> node_at disk_left ?b = Some (File (FileState 5 4))"
    by (simp add: sweep_defs demo_defs node_at_def)
  have s: "node_at (tree (cleanup_processed_directories ?w disk_left))
             [''drop'', ''release'', ''Screens'', ''screen1.jpg''] = None"
    by (simp add: sweep_defs demo_defs model_defs)
  show ?thesis
    using h d b s masked_directory_survives_sweep [OF h] by simp
qed

subsection \<open>Which candidates stay queued\<close>

text \<open>
  Claim C7, as the spec states it, fails. After the cycle above the release directory
  was examined without any failure (nothing is denied, the directory exists, its
  listing and its removal would succeed) and was left alone because it still holds
  \<open>b.mkv\<close>; it is nevertheless still in the candidate set.
\<close>

theorem evaluated_candidate_retained_counterexample:
  "denied (disk_after (run_once (seconds 0) (demo_watcher 0 True True move_unless_b) disk_release)) = []
   \<and> path_exists (disk_after (run_once (seconds 0) (demo_watcher 0 True True move_unless_b) disk_release))
         [''drop'', ''release'']
   \<and> iterdir (disk_after (run_once (seconds 0) (demo_watcher 0 True True move_unless_b) disk_release))
         [''drop'', ''release''] \<noteq> None
   \<and> rmtree (disk_after (run_once (seconds 0) (demo_watcher 0 True True move_unless_b) disk_release))
         [''drop'', ''release''] \<noteq> None
   \<and> [''drop'', ''release'']
        \<in> set (processed_dirs
               (watcher_after (run_once (seconds 0) (demo_watcher 0 True True move_unless_b) disk_release)))"
  by (simp add: sweep_defs demo_defs model_defs)

lemma sweep_cands_subset:
  "set (cands (fold (cleanup_dir w r) ds s)) \<subseteq> set (cands s)"
proof (induction ds arbitrary: s)
  case Nil
  then show ?case by simp
next
  case (Cons c ds)
  have "set (cands (cleanup_dir w r c s)) \<subseteq> set (cands s)"
    by (auto simp: cleanup_dir_def Let_def discard_def split: option.splits if_splits)
  then show ?case using Cons.IH [of "cleanup_dir w r c s"] by auto
qed

text \<open>
  Claim C7, amended. With neither flag enabled the sweep returns at once and the
  candidate set is unchanged. Otherwise the set only shrinks, and a candidate stays in
  it exactly when, at the moment the sweep examined it, it existed and either resolved
  to the watch root, or still held a masked file, or its listing or removal raised a
  filesystem error. So a candidate that no longer exists, one that was deleted, and one
  found non-empty in the empty-only mode are dropped.
\<close>

theorem candidate_retained_iff:
  "(\<not> self_cleanup_empty_source_dirs w \<and> \<not> self_cleanup_processed_source_dirs w \<longrightarrow>
      cands (cleanup_processed_directories w fs) = processed_dirs w)
   \<and> set (cands (cleanup_processed_directories w fs)) \<subseteq> set (processed_dirs w)
   \<and> (self_cleanup_empty_source_dirs w \<or> self_cleanup_processed_source_dirs w \<longrightarrow>
      processed_dirs w = before @ d # after \<longrightarrow> distinct (processed_dirs w) \<longrightarrow>
      (d \<in> set (cands (cleanup_processed_directories w fs)) \<longleftrightarrow>
         path_exists
           (tree (fold (cleanup_dir w (resolve fs (watch_directory w))) before
                    \<lparr>cands = processed_dirs w, tree = fs, notices = []\<rparr>)) d
         \<and> (resolve
               (tree (fold (cleanup_dir w (resolve fs (watch_directory w))) before
                        \<lparr>cands = processed_dirs w, tree = fs, notices = []\<rparr>)) d
              = resolve fs (watch_directory w)
            \<or> has_masked_files w
                 (tree (fold (cleanup_dir w (resolve fs (watch_directory w))) before
                          \<lparr>cands = processed_dirs w, tree = fs, notices = []\<rparr>)) d
            \<or> removal_fails w
                 (tree (fold (cleanup_dir w (resolve fs (watch_directory w))) before
                          \<lparr>cands = processed_dirs w, tree = fs, notices = []\<rparr>)) d)))"
proof -
  let ?r = "resolve fs (watch_directory w)"
  let ?s0 = "\<lparr>cands = processed_dirs w, tree = fs, notices = []\<rparr>"
  let ?S = "cleanup_processed_directories w fs"
  have off: "\<not> self_cleanup_empty_source_dirs w \<and> \<not> self_cleanup_processed_source_dirs w
               \<longrightarrow> cands ?S = processed_dirs w"
    by (simp add: sweep_disabled)
  have sub: "set (cands ?S) \<subseteq> set (processed_dirs w)"
  proof -
    obtain ds where "?S = fold (cleanup_dir w ?r) ds ?s0"
      using sweep_is_fold by blast
    then show ?thesis using sweep_cands_subset [of w ?r ds ?s0] by simp
  qed
  have on: "d \<in> set (cands ?S) \<longleftrightarrow>
              path_exists (tree (fold (cleanup_dir w ?r) before ?s0)) d
              \<and> (resolve (tree (fold (cleanup_dir w ?r) before ?s0)) d = ?r
                 \<or> has_masked_files w (tree (fold (cleanup_dir w ?r) before ?s0)) d
                 \<or> removal_fails w (tree (fold (cleanup_dir w ?r) before ?s0)) d)"
    if flags: "self_cleanup_empty_source_dirs w \<or> self_cleanup_processed_source_dirs w"
      and split: "processed_dirs w = before @ d # after"
      and dist: "distinct (processed_dirs w)"
  proof -
    let ?s1 = "fold (cleanup_dir w ?r) before ?s0"
    have S: "?S = fold (cleanup_dir w ?r) after (cleanup_dir w ?r d ?s1)"
      using flags split by (auto simp: cleanup_processed_directories_def Let_def)
    have nb: "d \<notin> set before" and na: "d \<notin> set after"
      using split dist by auto
    have "d \<in> set (cands ?s0)" using split by simp
    then have in1: "d \<in> set (cands ?s1)"
      using sweep_cands_other [OF nb, of w ?r ?s0] by simp
    have "d \<in> set (cands ?S) \<longleftrightarrow> d \<in> set (cands (cleanup_dir w ?r d ?s1))"
      using sweep_cands_other [OF na, of w ?r "cleanup_dir w ?r d ?s1"] S by simp
    then show ?thesis
      using cleanup_dir_cands_self [OF flags in1, of ?r] by simp
  qed
  show ?thesis using off sub on by blast
qed

text \<open>
  In the state that the cycle above leaves for the sweep: the release directory stays
  queued because it holds \<open>b.mkv\<close>, the subdirectory is deleted and dropped, and with
  both flags off nothing is dropped.
\<close>

theorem candidate_retained_iff_witness:
  "self_cleanup_processed_source_dirs (left_watcher True True)
   \<and> processed_dirs (left_watcher True True)
       = [] @ [''drop'', ''release''] # [[''drop'', ''release'', ''Screens'']]
   \<and> processed_dirs (left_watcher True True)
       = [[''drop'', ''release'']] @ [''drop'', ''release'', ''Screens''] # []
   \<and> distinct (processed_dirs (left_watcher True True))
   \<and> [''drop'', ''release'']
        \<in> set (cands (cleanup_processed_directories (left_watcher True True) disk_left))
   \<and> has_masked_files (left_watcher True True) disk_left [''drop'', ''release'']
   \<and> [''drop'', ''release'', ''Screens'']
        \<notin> set (cands (cleanup_processed_directories (left_watcher True True) disk_left))
   \<and> \<not> self_cleanup_empty_source_dirs (left_watcher False False)
   \<and> \<not> self_cleanup_processed_source_dirs (left_watcher False False)
   \<and> cands (cleanup_processed_directories (left_watcher False False) disk_left)
       = [[''drop'', ''release''], [''drop'', ''release'', ''Screens'']]"
proof -
  let ?w = "left_watcher True True"
  let ?d = "[''drop'', ''release'']"
  let ?e = "[''drop'', ''release'', ''Screens'']"
  have fl: "self_cleanup_processed_source_dirs ?w"
    by (simp add: sweep_defs demo_defs)
  have s1: "processed_dirs ?w = [] @ ?d # [?e]"
    by (simp add: sweep_defs demo_defs)
  have s2: "processed_dirs ?w = [?d] @ ?e # []"
    by (simp add: sweep_defs demo_defs)
  have di: "distinct (processed_dirs ?w)"
    by (simp add: sweep_defs demo_defs)
  have hm: "has_masked_files ?w disk_left ?d"
    by (simp add: sweep_defs demo_defs model_defs)
  have ex: "path_exists disk_left ?d"
    by (simp add: disk_left_def path_exists_def node_at_def)
  have keep: "?d \<in> set (cands (cleanup_processed_directories ?w disk_left))"
    using candidate_retained_iff [of ?w disk_left "[]" ?d "[?e]"] fl s1 di hm ex
    by simp
  have gone: "\<not> path_exists (tree (fold (cleanup_dir ?w (resolve disk_left (watch_directory ?w)))
                 [?d] \<lparr>cands = processed_dirs ?w, tree = disk_left, notices = []\<rparr>)) ?e
              \<or> \<not> (resolve (tree (fold (cleanup_dir ?w (resolve disk_left (watch_directory ?w)))
                 [?d] \<lparr>cands = processed_dirs ?w, tree = disk_left, notices = []\<rparr>)) ?e
                    = resolve disk_left (watch_directory ?w)
                  \<or> has_masked_files ?w (tree (fold (cleanup_dir ?w (resolve disk_left (watch_directory ?w)))
                 [?d] \<lparr>cands = processed_dirs ?w, tree = disk_left, notices = []\<rparr>)) ?e
                  \<or> removal_fails ?w (tree (fold (cleanup_dir ?w (resolve disk_left (watch_directory ?w)))
                 [?d] \<lparr>cands = processed_dirs ?w, tree = disk_left, notices = []\<rparr>)) ?e)"
    by (simp add: sweep_defs demo_defs model_defs removal_fails_def)
  have drop: "?e \<notin> set (cands (cleanup_processed_directories ?w disk_left))"
    using candidate_retained_iff [of ?w disk_left "[?d]" ?e "[]"] fl s2 di gone
    by blast
  have off: "\<not> self_cleanup_empty_source_dirs (left_watcher False False)
             \<and> \<not> self_cleanup_processed_source_dirs (left_watcher False False)"
    by (simp add: sweep_defs demo_defs)
  have same: "cands (cleanup_processed_directories (left_watcher False False) disk_left)
                = [?d, ?e]"
    using candidate_retained_iff [of "left_watcher False False" disk_left "[]" ?d "[?e]"] off
    by (simp add: sweep_defs)
  show ?thesis using fl s1 s2 di keep hm drop off same by simp
qed

text \<open>
  The state for the sweep used above is the one that the cycle of the two
  counterexamples reaches after its loop.
\<close>

lemma cycle_reaches_disk_left:
  "disk (run_loop (seconds 0) (demo_watcher 0 True True move_unless_b) disk_release) = disk_left
   \<and> processed_dirs (self (run_loop (seconds 0) (demo_watcher 0 True True move_unless_b) disk_release))
       = processed_dirs (left_watcher True True)"
  by (simp add: sweep_defs demo_defs model_defs)

end
